theory Spec2Isabelle
  imports Main
begin

section \<open>Bracket matcher\<close>

text \<open>
  Texts are Python strings; they are modelled as lists of characters, a character being
  a code point below 256. Offsets are Python integers.
\<close>

datatype py_error = IndexError

text \<open>The result of one scan: the anchor offset and the offset of its partner (the two
  offsets that receive the tag \<open>match_bracket\<close>), no partner, or a raised exception.\<close>

datatype scan_outcome = Matched int int | Unmatched | Raised py_error

text \<open>\<open>xs[i]\<close>: a negative index counts from the end, anything outside raises.\<close>

definition py_index :: "'a list \<Rightarrow> int \<Rightarrow> py_error + 'a" where
  "py_index s i =
     (if 0 \<le> i \<and> i < int (length s) then Inr (s ! nat i)
      else if - int (length s) \<le> i \<and> i < 0 then Inr (s ! nat (int (length s) + i))
      else Inl IndexError)"

text \<open>\<open>self.matching_pairs\<close> and \<open>self.closing_pairs\<close> (the inverted dictionary).\<close>

definition matching_pairs :: "(char \<times> char) list" where
  "matching_pairs =
     [(CHR ''('', CHR '')''), (CHR ''['', CHR '']''), (CHR ''{'', CHR ''}''), (CHR ''<'', CHR ''>'')]"

definition closing_pairs :: "(char \<times> char) list" where
  "closing_pairs = map (\<lambda>(k, v). (v, k)) matching_pairs"

text \<open>The two branches \<open>if content[i] == open_char: count += 1 elif content[i] == close_char:
  count -= 1\<close> of the loop body.\<close>

definition bump :: "char \<Rightarrow> char \<Rightarrow> char \<Rightarrow> int \<Rightarrow> int" where
  "bump ch open_char close_char count =
     (if ch = open_char then count + 1
      else if ch = close_char then count - 1
      else count)"

text \<open>The \<open>while 0 <= i < len(content)\<close> loop of \<open>find_matching_bracket\<close>. The direction is
  any integer, so the loop need not end: not returning is the value \<open>None\<close>.\<close>

partial_function (option) scan_loop ::
  "string \<Rightarrow> int \<Rightarrow> char \<Rightarrow> char \<Rightarrow> int \<Rightarrow> int \<Rightarrow> int \<Rightarrow> scan_outcome option" where
  "scan_loop content start_index open_char close_char direction count i =
     (if 0 \<le> i \<and> i < int (length content) then
        (case py_index content i of
           Inl e \<Rightarrow> Some (Raised e)
         | Inr ch \<Rightarrow>
             (if bump ch open_char close_char count = 0 \<and> i \<noteq> start_index
              then Some (Matched start_index i)
              else scan_loop content start_index open_char close_char direction
                     (bump ch open_char close_char count) (i + direction)))
      else Some Unmatched)"

text \<open>\<open>find_matching_bracket\<close>; \<open>content\<close> is the text of the widget and \<open>start_index\<close>
  the offset of \<open>start_pos\<close> in it.\<close>

definition find_matching_bracket ::
  "string \<Rightarrow> int \<Rightarrow> char \<Rightarrow> char \<Rightarrow> int \<Rightarrow> scan_outcome option" where
  "find_matching_bracket content start_index open_char close_char direction =
     scan_loop content start_index open_char close_char direction 0 start_index"

text \<open>One of the two \<open>if ... in self.matching_pairs ... elif ... in self.closing_pairs\<close>
  blocks of \<open>highlight_matching_bracket\<close>: \<open>ch\<close> is the string read beside the cursor
  (\<open>None\<close> for the empty string), \<open>pos\<close> its offset.\<close>

definition check_anchor :: "string \<Rightarrow> int \<Rightarrow> char option \<Rightarrow> scan_outcome list option" where
  "check_anchor content pos ch =
     (case ch of
        None \<Rightarrow> Some []
      | Some c \<Rightarrow>
          (case map_of matching_pairs c of
             Some cl \<Rightarrow> map_option (\<lambda>r. [r]) (find_matching_bracket content pos c cl 1)
           | None \<Rightarrow>
               (case map_of closing_pairs c of
                  Some opn \<Rightarrow> map_option (\<lambda>r. [r]) (find_matching_bracket content pos c opn (- 1))
                | None \<Rightarrow> Some [])))"

text \<open>The characters beside the cursor, as the text widget returns them: before the first
  character there is none (the empty string), and at the end of the content the widget
  holds its own final newline.\<close>

definition char_before :: "string \<Rightarrow> nat \<Rightarrow> char option" where
  "char_before content cursor = (if cursor = 0 then None else Some (content ! (cursor - 1)))"

definition char_after :: "string \<Rightarrow> nat \<Rightarrow> char option" where
  "char_after content cursor =
     (if cursor < length content then Some (content ! cursor) else Some (CHR 0x0A))"

text \<open>\<open>highlight_matching_bracket\<close> with the cursor at offset \<open>cursor\<close>: the outcomes of the
  scans it starts, the one for the character before the cursor first.\<close>

definition highlight_matching_bracket :: "string \<Rightarrow> nat \<Rightarrow> scan_outcome list option" where
  "highlight_matching_bracket content cursor =
     (case check_anchor content (int cursor - 1) (char_before content cursor) of
        None \<Rightarrow> None
      | Some before \<Rightarrow>
          (case check_anchor content (int cursor) (char_after content cursor) of
             None \<Rightarrow> None
           | Some after \<Rightarrow> Some (before @ after)))"

subsection \<open>Balanced counting, as the specification words it\<close>

text \<open>The characters met in the first \<open>n\<close> steps from \<open>start\<close> in direction \<open>d\<close>.\<close>

definition visited :: "string \<Rightarrow> int \<Rightarrow> int \<Rightarrow> nat \<Rightarrow> string" where
  "visited content start d n = map (\<lambda>j. content ! nat (start + int j * d)) [0..<n]"

text \<open>Occurrences of the anchor character minus occurrences of its counterpart.\<close>

definition balance :: "string \<Rightarrow> char \<Rightarrow> char \<Rightarrow> int \<Rightarrow> int \<Rightarrow> nat \<Rightarrow> int" where
  "balance content a b start d n =
     int (count_list (visited content start d n) a) - int (count_list (visited content start d n) b)"

text \<open>The number of positions from \<open>start\<close> to the end of the buffer in direction \<open>d\<close>.\<close>

definition room :: "string \<Rightarrow> int \<Rightarrow> int \<Rightarrow> nat" where
  "room content start d = (if d = 1 then nat (int (length content) - start) else nat (start + 1))"

text \<open>The first position other than the anchor at which the count is back at 0.\<close>

definition balanced_scan :: "string \<Rightarrow> int \<Rightarrow> char \<Rightarrow> char \<Rightarrow> int \<Rightarrow> scan_outcome" where
  "balanced_scan content start a b d =
     (case List.find (\<lambda>k. balance content a b start d (Suc k) = 0) [1..<room content start d] of
        None \<Rightarrow> Unmatched
      | Some k \<Rightarrow> Matched start (start + int k * d))"

text \<open>The registered pairs: openers, closers, and the counterpart of each.\<close>

definition counterpart :: "char \<Rightarrow> char" where
  "counterpart c =
     (if c = CHR ''('' then CHR '')'' else if c = CHR '')'' then CHR ''(''
      else if c = CHR ''['' then CHR '']'' else if c = CHR '']'' then CHR ''[''
      else if c = CHR ''{'' then CHR ''}'' else if c = CHR ''}'' then CHR ''{''
      else if c = CHR ''<'' then CHR ''>'' else if c = CHR ''>'' then CHR ''<''
      else c)"

text \<open>An anchor that is an opener is scanned forward, one that is a closer backward; any
  other character, or none, gives no scan.\<close>

definition anchor_spec :: "string \<Rightarrow> int \<Rightarrow> char option \<Rightarrow> scan_outcome list" where
  "anchor_spec content pos ch =
     (case ch of
        None \<Rightarrow> []
      | Some c \<Rightarrow>
          (if c \<in> set ''([{<'' then [balanced_scan content pos c (counterpart c) 1]
           else if c \<in> set '')]}>'' then [balanced_scan content pos c (counterpart c) (- 1)]
           else []))"

definition matchAt_spec :: "string \<Rightarrow> nat \<Rightarrow> scan_outcome list" where
  "matchAt_spec content cursor =
     anchor_spec content (int cursor - 1) (char_before content cursor)
     @ anchor_spec content (int cursor) (char_after content cursor)"

section \<open>Regular expressions\<close>

text \<open>
  The highlighting rules are patterns of Python's \<open>re\<close> module. A pattern is written here
  in parsed form; compiling it is the identity. The matcher is the backtracking matcher
  of \<open>re\<close>: it lists the ends of all ways a pattern can match at a position, the preferred
  one first (alternatives left to right, a greedy repeat longest first, a lazy repeat
  shortest first), and a search takes the first. Character classes are those of \<open>str\<close>
  patterns, for the code points below 256.
\<close>

definition newline :: char where
  "newline = CHR 0x0A"

definition dquote :: char where
  "dquote = CHR 0x22"

definition squote :: char where
  "squote = CHR 0x27"

definition backslash :: char where
  "backslash = CHR 0x5C"

definition backtick :: char where
  "backtick = CHR 0x60"

definition code_point :: "char \<Rightarrow> nat" where
  "code_point c = of_char c"

definition between :: "nat \<Rightarrow> nat \<Rightarrow> nat \<Rightarrow> bool" where
  "between lo hi n = (lo \<le> n \<and> n \<le> hi)"

text \<open>\<open>\d\<close>, \<open>\w\<close> and \<open>\s\<close>; the last is also the white space of \<open>str.strip\<close>.\<close>

definition is_digit :: "char \<Rightarrow> bool" where
  "is_digit c = between 48 57 (code_point c)"

definition is_word :: "char \<Rightarrow> bool" where
  "is_word c =
     (let n = code_point c in
      between 48 57 n \<or> between 65 90 n \<or> n = 95 \<or> between 97 122 n \<or> n = 170
      \<or> between 178 179 n \<or> n = 181 \<or> between 185 186 n \<or> between 188 190 n
      \<or> between 192 214 n \<or> between 216 246 n \<or> between 248 255 n)"

definition is_space :: "char \<Rightarrow> bool" where
  "is_space c =
     (let n = code_point c in between 9 13 n \<or> between 28 32 n \<or> n = 133 \<or> n = 160)"

text \<open>The dot: any character but a newline, and any character under \<open>re.DOTALL\<close>.\<close>

definition dot :: "char \<Rightarrow> bool" where
  "dot c = (c \<noteq> newline)"

definition dot_all :: "char \<Rightarrow> bool" where
  "dot_all c = True"

datatype regex =
    Sym "char \<Rightarrow> bool"
  | Lit string
  | Eps
  | Cat regex regex
  | Alt regex regex
  | Star regex
  | LazyStar regex
  | WordB
  | Eol
  | Grp regex

text \<open>A matcher state: the position in the text and the span of group 1, once it has
  matched.\<close>

type_synonym mstate = "nat \<times> (nat \<times> nat) option"

text \<open>Repeats. An iteration that consumes nothing is not repeated; each other iteration
  consumes a character, so the number of characters left bounds the iterations.\<close>

primrec star_greedy :: "(mstate \<Rightarrow> mstate list) \<Rightarrow> nat \<Rightarrow> mstate \<Rightarrow> mstate list" where
  "star_greedy f 0 s = [s]"
| "star_greedy f (Suc n) s =
     concat (map (star_greedy f n) (filter (\<lambda>s'. fst s < fst s') (f s))) @ [s]"

primrec star_lazy :: "(mstate \<Rightarrow> mstate list) \<Rightarrow> nat \<Rightarrow> mstate \<Rightarrow> mstate list" where
  "star_lazy f 0 s = [s]"
| "star_lazy f (Suc n) s =
     s # concat (map (star_lazy f n) (filter (\<lambda>s'. fst s < fst s') (f s)))"

definition word_at :: "string \<Rightarrow> nat \<Rightarrow> bool" where
  "word_at t i = (i < length t \<and> is_word (t ! i))"

text \<open>\<open>\b\<close>: a word character on exactly one side.\<close>

definition word_boundary :: "string \<Rightarrow> nat \<Rightarrow> bool" where
  "word_boundary t i = ((i \<noteq> 0 \<and> word_at t (i - 1)) \<noteq> word_at t i)"

text \<open>\<open>$\<close> without \<open>re.MULTILINE\<close>: the end of the text, or just before a newline that
  is the last character of the text.\<close>

definition at_eol :: "string \<Rightarrow> nat \<Rightarrow> bool" where
  "at_eol t i = (i = length t \<or> (Suc i = length t \<and> t ! i = newline))"

primrec rmatch :: "regex \<Rightarrow> string \<Rightarrow> mstate \<Rightarrow> mstate list" where
  "rmatch (Sym p) t s =
     (if fst s < length t \<and> p (t ! fst s) then [(Suc (fst s), snd s)] else [])"
| "rmatch (Lit w) t s =
     (if take (length w) (drop (fst s) t) = w then [(fst s + length w, snd s)] else [])"
| "rmatch Eps t s = [s]"
| "rmatch (Cat a b) t s = concat (map (rmatch b t) (rmatch a t s))"
| "rmatch (Alt a b) t s = rmatch a t s @ rmatch b t s"
| "rmatch (Star a) t s = star_greedy (rmatch a t) (length t - fst s) s"
| "rmatch (LazyStar a) t s = star_lazy (rmatch a t) (length t - fst s) s"
| "rmatch WordB t s = (if word_boundary t (fst s) then [s] else [])"
| "rmatch Eol t s = (if at_eol t (fst s) then [s] else [])"
| "rmatch (Grp a) t s = map (\<lambda>s'. (fst s', Some (fst s, fst s'))) (rmatch a t s)"

text \<open>\<open>a+\<close> and \<open>a?\<close>.\<close>

definition Plus :: "regex \<Rightarrow> regex" where
  "Plus a = Cat a (Star a)"

definition Opt :: "regex \<Rightarrow> regex" where
  "Opt a = Alt a Eps"

text \<open>\<open>w1|w2|...\<close> for literal words.\<close>

fun alts :: "string list \<Rightarrow> regex" where
  "alts [] = Sym (\<lambda>c. False)"
| "alts [w] = Lit w"
| "alts (w # ws) = Alt (Lit w) (alts ws)"

lemma star_greedy_ge:
  assumes f: "\<And>s s'. s' \<in> set (f s) \<Longrightarrow> fst s \<le> fst s'"
  shows "s' \<in> set (star_greedy f n s) \<Longrightarrow> fst s \<le> fst s'"
proof (induction n arbitrary: s)
  case 0
  then show ?case by simp
next
  case (Suc n)
  from Suc.prems consider "s' = s"
    | m where "m \<in> set (f s)" "fst s < fst m" "s' \<in> set (star_greedy f n m)"
    by auto
  then show ?case
  proof cases
    case 1
    then show ?thesis by simp
  next
    case 2
    then show ?thesis using Suc.IH[of m] by simp
  qed
qed

lemma star_lazy_ge:
  assumes f: "\<And>s s'. s' \<in> set (f s) \<Longrightarrow> fst s \<le> fst s'"
  shows "s' \<in> set (star_lazy f n s) \<Longrightarrow> fst s \<le> fst s'"
proof (induction n arbitrary: s)
  case 0
  then show ?case by simp
next
  case (Suc n)
  from Suc.prems consider "s' = s"
    | m where "m \<in> set (f s)" "fst s < fst m" "s' \<in> set (star_lazy f n m)"
    by auto
  then show ?case
  proof cases
    case 1
    then show ?thesis by simp
  next
    case 2
    then show ?thesis using Suc.IH[of m] by simp
  qed
qed

lemma rmatch_ge: "s' \<in> set (rmatch r t s) \<Longrightarrow> fst s \<le> fst s'"
proof (induction r arbitrary: s s')
  case (Cat a b)
  from Cat.prems obtain m where "m \<in> set (rmatch a t s)" "s' \<in> set (rmatch b t m)"
    by auto
  then show ?case using Cat.IH(1)[of m s] Cat.IH(2)[of s' m] by simp
next
  case (Alt a b)
  from Alt.prems have "s' \<in> set (rmatch a t s) \<or> s' \<in> set (rmatch b t s)" by simp
  then show ?case using Alt.IH by blast
next
  case (Star a)
  show ?case
    by (rule star_greedy_ge[of "rmatch a t" s' "length t - fst s" s]) (use Star in simp_all)
next
  case (LazyStar a)
  show ?case
    by (rule star_lazy_ge[of "rmatch a t" s' "length t - fst s" s]) (use LazyStar in simp_all)
next
  case (Grp a)
  from Grp.prems obtain m where "m \<in> set (rmatch a t s)" "fst s' = fst m" by auto
  then show ?case using Grp.IH[of m s] by simp
qed (simp_all split: if_splits)

lemma filter_eq_ConsD: "filter P xs = y # ys \<Longrightarrow> y \<in> set xs \<and> P y"
proof -
  assume a: "filter P xs = y # ys"
  have "y \<in> set (filter P xs)" unfolding a by simp
  then show ?thesis by simp
qed

text \<open>
  \<open>pattern.finditer(content)\<close>: the matches from left to right, each with its start, its
  end and its group 1. The next search starts where the last match ended; after an empty
  match the first attempt must not be empty at that position again.
\<close>

function finditer_from :: "regex \<Rightarrow> string \<Rightarrow> nat \<Rightarrow> bool \<Rightarrow> (nat \<times> mstate) list" where
  "finditer_from r t pos must_advance =
     (if length t < pos then []
      else
        (case filter (\<lambda>s'. \<not> (must_advance \<and> fst s' = pos)) (rmatch r t (pos, None)) of
           [] \<Rightarrow> finditer_from r t (Suc pos) False
         | s' # _ \<Rightarrow> (pos, s') # finditer_from r t (fst s') (fst s' = pos)))"
  by pat_completeness auto
termination
proof (relation "measures [\<lambda>(r, t, pos, adv). Suc (length t) - pos,
                           \<lambda>(r, t, pos, adv). if adv then 0 else 1]", goal_cases)
  case 1
  show ?case by simp
next
  case (2 r t pos must_advance)
  then show ?case by auto
next
  case (3 r t pos must_advance x21 x22)
  from filter_eq_ConsD[OF 3(2)]
  have m: "x21 \<in> set (rmatch r t (pos, None))" and na: "\<not> (must_advance \<and> fst x21 = pos)"
    by simp_all
  have "pos \<le> fst x21" using rmatch_ge[OF m] by simp
  then show ?case
    using 3(1) na by auto
qed

declare finditer_from.simps [simp del]

definition finditer :: "regex \<Rightarrow> string \<Rightarrow> (nat \<times> mstate) list" where
  "finditer r t = finditer_from r t 0 False"

text \<open>\<open>match.start()\<close>, \<open>match.end()\<close>, \<open>match.start(1)\<close> and \<open>match.end(1)\<close>; the last two
  are -1 for a group that did not take part in the match.\<close>

definition m_start :: "nat \<times> mstate \<Rightarrow> int" where
  "m_start m = int (fst m)"

definition m_end :: "nat \<times> mstate \<Rightarrow> int" where
  "m_end m = int (fst (snd m))"

definition m_start1 :: "nat \<times> mstate \<Rightarrow> int" where
  "m_start1 m = (case snd (snd m) of None \<Rightarrow> - 1 | Some g \<Rightarrow> int (fst g))"

definition m_end1 :: "nat \<times> mstate \<Rightarrow> int" where
  "m_end1 m = (case snd (snd m) of None \<Rightarrow> - 1 | Some g \<Rightarrow> int (snd g))"

section \<open>Highlight engine\<close>

subsection \<open>The patterns of the rules\<close>

text \<open>\<open>\b(w1|w2|...)\b\<close>\<close>

definition word_list :: "string list \<Rightarrow> regex" where
  "word_list ws = Cat WordB (Cat (Grp (alts ws)) WordB)"

text \<open>\<open>"(?:[^"\\]|\\.)*"\<close> for the quote \<open>q\<close>\<close>

definition quoted :: "char \<Rightarrow> (char \<Rightarrow> bool) \<Rightarrow> regex" where
  "quoted q d =
     Cat (Lit [q])
       (Cat (Star (Alt (Sym (\<lambda>c. c \<noteq> q \<and> c \<noteq> backslash)) (Cat (Lit [backslash]) (Sym d))))
          (Lit [q]))"

text \<open>\<open>l.*?r\<close> for the delimiters \<open>l\<close> and \<open>r\<close>\<close>

definition delimited :: "string \<Rightarrow> (char \<Rightarrow> bool) \<Rightarrow> string \<Rightarrow> regex" where
  "delimited l d r = Cat (Lit l) (Cat (LazyStar (Sym d)) (Lit r))"

text \<open>\<open>\b\d+\.?\d*\b\<close>\<close>

definition numbers :: regex where
  "numbers =
     Cat WordB (Cat (Plus (Sym is_digit)) (Cat (Opt (Lit ''.'')) (Cat (Star (Sym is_digit)) WordB)))"

text \<open>\<open>\bdef\s+(\w+)\<close> and \<open>\bclass\s+(\w+)\<close>\<close>

definition name_after :: "string \<Rightarrow> regex" where
  "name_after kw = Cat WordB (Cat (Lit kw) (Cat (Plus (Sym is_space)) (Grp (Plus (Sym is_word)))))"

definition py_keywords :: regex where
  "py_keywords = word_list
     [''def'', ''class'', ''if'', ''elif'', ''else'', ''for'', ''while'', ''try'', ''except'',
      ''finally'', ''with'', ''as'', ''import'', ''from'', ''return'', ''yield'', ''break'',
      ''continue'', ''pass'', ''raise'', ''assert'', ''lambda'', ''and'', ''or'', ''not'', ''in'',
      ''is'', ''True'', ''False'', ''None'', ''async'', ''await'']"

definition py_builtins :: regex where
  "py_builtins = word_list
     [''print'', ''len'', ''range'', ''str'', ''int'', ''float'', ''list'', ''dict'', ''set'',
      ''tuple'', ''open'', ''input'', ''isinstance'', ''type'', ''enumerate'', ''zip'', ''map'',
      ''filter'', ''sum'', ''min'', ''max'', ''sorted'', ''abs'', ''all'', ''any'', ''bool'',
      ''bytes'', ''chr'', ''ord'', ''dir'', ''eval'', ''exec'', ''format'', ''hash'', ''help'',
      ''hex'', ''id'', ''iter'', ''next'', ''object'', ''oct'', ''pow'', ''repr'', ''reversed'',
      ''round'', ''slice'', ''super'', ''vars'']"

text \<open>\<open>(""".*?"""|'''.*?'''|"(?:[^"\\]|\\.)*"|'(?:[^'\\]|\\.)*')\<close>, used with
  \<open>re.DOTALL\<close>\<close>

definition py_strings :: regex where
  "py_strings =
     Grp (Alt (delimited [dquote, dquote, dquote] dot_all [dquote, dquote, dquote])
         (Alt (delimited [squote, squote, squote] dot_all [squote, squote, squote])
         (Alt (quoted dquote dot_all) (quoted squote dot_all))))"

text \<open>\<open>#.*?$\<close>\<close>

definition py_comments :: regex where
  "py_comments = Cat (Lit ''#'') (Cat (LazyStar (Sym dot)) Eol)"

definition py_functions :: regex where
  "py_functions = name_after ''def''"

definition py_classes :: regex where
  "py_classes = name_after ''class''"

definition js_keywords :: regex where
  "js_keywords = word_list
     [''function'', ''const'', ''let'', ''var'', ''if'', ''else'', ''for'', ''while'', ''do'',
      ''switch'', ''case'', ''break'', ''continue'', ''return'', ''try'', ''catch'', ''finally'',
      ''throw'', ''new'', ''this'', ''class'', ''extends'', ''import'', ''export'', ''from'',
      ''default'', ''async'', ''await'', ''yield'', ''typeof'', ''instanceof'', ''delete'',
      ''void'', ''in'', ''of'']"

text \<open>\<open>(`.*?`|"(?:[^"\\]|\\.)*"|'(?:[^'\\]|\\.)*')\<close>\<close>

definition js_strings :: regex where
  "js_strings =
     Grp (Alt (delimited [backtick] dot [backtick]) (Alt (quoted dquote dot) (quoted squote dot)))"

text \<open>\<open>//.*?$|/\*.*?\*/\<close>, the comment pattern of both the JavaScript and the C-like
  rules\<close>

definition slash_comments :: regex where
  "slash_comments = Alt (Cat (Lit ''//'') (Cat (LazyStar (Sym dot)) Eol)) (delimited ''/*'' dot ''*/'')"

definition c_keywords :: regex where
  "c_keywords = word_list
     [''if'', ''else'', ''for'', ''while'', ''do'', ''switch'', ''case'', ''break'', ''continue'',
      ''return'', ''class'', ''struct'', ''enum'', ''public'', ''private'', ''protected'',
      ''static'', ''void'', ''int'', ''float'', ''double'', ''char'', ''bool'', ''long'', ''short'',
      ''unsigned'', ''signed'', ''const'', ''new'', ''delete'', ''try'', ''catch'', ''throw'',
      ''virtual'', ''override'', ''namespace'', ''using'', ''include'']"

definition c_strings :: regex where
  "c_strings = quoted dquote dot"

text \<open>\<open></?[\w\-]+[^>]*>\<close>\<close>

definition html_tags :: regex where
  "html_tags =
     Cat (Lit ''<'') (Cat (Opt (Lit ''/''))
       (Cat (Plus (Sym (\<lambda>c. is_word c \<or> c = CHR ''-'')))
          (Cat (Star (Sym (\<lambda>c. c \<noteq> CHR ''>''))) (Lit ''>''))))"

text \<open>\<open><!--.*?-->\<close>, used with \<open>re.DOTALL\<close>\<close>

definition html_comments :: regex where
  "html_comments = delimited ''<!--'' dot_all ''-->''"

text \<open>\<open>"[^"]*"|'[^']*'\<close>\<close>

definition html_strings :: regex where
  "html_strings =
     Alt (Cat (Lit [dquote]) (Cat (Star (Sym (\<lambda>c. c \<noteq> dquote))) (Lit [dquote])))
         (Cat (Lit [squote]) (Cat (Star (Sym (\<lambda>c. c \<noteq> squote))) (Lit [squote])))"

subsection \<open>The editor state\<close>

text \<open>What highlighting reads and writes: the tagged ranges of the text widget, each a tag
  name with its start and end offset in the order they were added, and \<open>self.regex_cache\<close>.\<close>

record editor =
  tags :: "(string \<times> int \<times> int) list"
  regex_cache :: "string \<rightharpoonup> regex"

definition tag_add :: "string \<Rightarrow> int \<Rightarrow> int \<Rightarrow> editor \<Rightarrow> editor" where
  "tag_add tag start end ed = ed\<lparr>tags := tags ed @ [(tag, start, end)]\<rparr>"

text \<open>\<open>tag_remove(tag, "1.0", "end")\<close>\<close>

definition tag_remove :: "string \<Rightarrow> editor \<Rightarrow> editor" where
  "tag_remove tag ed = ed\<lparr>tags := filter (\<lambda>sp. fst sp \<noteq> tag) (tags ed)\<rparr>"

definition get_compiled_regex :: "regex \<Rightarrow> string \<Rightarrow> editor \<Rightarrow> regex \<times> editor" where
  "get_compiled_regex pattern key ed =
     (case regex_cache ed key of
        None \<Rightarrow> (pattern, ed\<lparr>regex_cache := (regex_cache ed)(key \<mapsto> pattern)\<rparr>)
      | Some compiled \<Rightarrow> (compiled, ed))"

text \<open>The loops \<open>for match in ...: tag_add(tag, start, end)\<close>, over the whole match and over
  group 1.\<close>

definition tag_matches :: "string \<Rightarrow> (nat \<times> mstate) list \<Rightarrow> editor \<Rightarrow> editor" where
  "tag_matches tag ms ed = fold (\<lambda>m. tag_add tag (m_start m) (m_end m)) ms ed"

definition tag_groups :: "string \<Rightarrow> (nat \<times> mstate) list \<Rightarrow> editor \<Rightarrow> editor" where
  "tag_groups tag ms ed = fold (\<lambda>m. tag_add tag (m_start1 m) (m_end1 m)) ms ed"

subsection \<open>The four language profiles\<close>

definition highlight_python :: "string \<Rightarrow> editor \<Rightarrow> editor" where
  "highlight_python content ed0 =
     (let (pattern, ed) = get_compiled_regex py_keywords ''py_keywords'' ed0;
          ed = tag_matches ''keyword'' (finditer pattern content) ed;
          (pattern, ed) = get_compiled_regex py_builtins ''py_builtins'' ed;
          ed = tag_matches ''builtin'' (finditer pattern content) ed;
          ed = tag_matches ''string'' (finditer py_strings content) ed;
          (pattern, ed) = get_compiled_regex py_comments ''py_comments'' ed;
          ed = tag_matches ''comment'' (finditer pattern content) ed;
          (pattern, ed) = get_compiled_regex numbers ''py_numbers'' ed;
          ed = tag_matches ''number'' (finditer pattern content) ed;
          (pattern, ed) = get_compiled_regex py_functions ''py_functions'' ed;
          ed = tag_groups ''function'' (finditer pattern content) ed;
          (pattern, ed) = get_compiled_regex py_classes ''py_classes'' ed
      in tag_groups ''class'' (finditer pattern content) ed)"

definition highlight_javascript :: "string \<Rightarrow> editor \<Rightarrow> editor" where
  "highlight_javascript content ed0 =
     (let (pattern, ed) = get_compiled_regex js_keywords ''js_keywords'' ed0;
          ed = tag_matches ''keyword'' (finditer pattern content) ed;
          (pattern, ed) = get_compiled_regex js_strings ''js_strings'' ed;
          ed = tag_matches ''string'' (finditer pattern content) ed;
          (pattern, ed) = get_compiled_regex slash_comments ''js_comments'' ed;
          ed = tag_matches ''comment'' (finditer pattern content) ed;
          (pattern, ed) = get_compiled_regex numbers ''js_numbers'' ed
      in tag_matches ''number'' (finditer pattern content) ed)"

definition highlight_c_like :: "string \<Rightarrow> editor \<Rightarrow> editor" where
  "highlight_c_like content ed0 =
     (let (pattern, ed) = get_compiled_regex c_keywords ''c_keywords'' ed0;
          ed = tag_matches ''keyword'' (finditer pattern content) ed;
          (pattern, ed) = get_compiled_regex c_strings ''c_strings'' ed;
          ed = tag_matches ''string'' (finditer pattern content) ed;
          (pattern, ed) = get_compiled_regex slash_comments ''c_comments'' ed;
          ed = tag_matches ''comment'' (finditer pattern content) ed;
          (pattern, ed) = get_compiled_regex numbers ''c_numbers'' ed
      in tag_matches ''number'' (finditer pattern content) ed)"

definition highlight_html :: "string \<Rightarrow> editor \<Rightarrow> editor" where
  "highlight_html content ed0 =
     (let (pattern, ed) = get_compiled_regex html_tags ''html_tags'' ed0;
          ed = tag_matches ''keyword'' (finditer pattern content) ed;
          ed = tag_matches ''comment'' (finditer html_comments content) ed
      in tag_matches ''string'' (finditer html_strings content) ed)"

subsection \<open>Choosing the profile\<close>

text \<open>\<open>str.split\<close> at a character, and \<open>str.lower\<close>.\<close>

fun split_on :: "char \<Rightarrow> string \<Rightarrow> string list" where
  "split_on c [] = [[]]"
| "split_on c (x # xs) =
     (if x = c then [] # split_on c xs
      else (case split_on c xs of
              [] \<Rightarrow> [[x]]
            | w # ws \<Rightarrow> (x # w) # ws))"

definition lower_char :: "char \<Rightarrow> char" where
  "lower_char c =
     (let n = code_point c in
      if between 65 90 n \<or> between 192 214 n \<or> between 216 222 n then char_of (n + 32) else c)"

definition lower :: "string \<Rightarrow> string" where
  "lower s = map lower_char s"

text \<open>\<open>self.current_file.split('.')[-1].lower() if '.' in self.current_file else ''\<close>\<close>

definition file_ext :: "string \<Rightarrow> py_error + string" where
  "file_ext current_file =
     (if CHR ''.'' \<in> set current_file
      then (case py_index (split_on CHR ''.'' current_file) (- 1) of
              Inl e \<Rightarrow> Inl e
            | Inr s \<Rightarrow> Inr (lower s))
      else Inr [])"

definition syntax_tags :: "string list" where
  "syntax_tags =
     [''keyword'', ''string'', ''comment'', ''function'', ''number'', ''class'', ''builtin'', ''operator'']"

text \<open>\<open>highlight_syntax\<close>. \<open>self.current_file\<close> is \<open>None\<close> or a string, the empty one counting
  as none.\<close>

definition highlight_syntax :: "string option \<Rightarrow> string \<Rightarrow> editor \<Rightarrow> py_error + editor" where
  "highlight_syntax current_file content ed0 =
     (case current_file of
        None \<Rightarrow> Inr ed0
      | Some f \<Rightarrow>
          if f = [] then Inr ed0
          else
            (case file_ext f of
               Inl e \<Rightarrow> Inl e
             | Inr ext \<Rightarrow>
                 (let ed = fold tag_remove syntax_tags ed0
                  in Inr (if ext = ''py'' then highlight_python content ed
                          else if ext \<in> set [''js'', ''ts'', ''jsx'', ''tsx''] then highlight_javascript content ed
                          else if ext \<in> set [''java'', ''c'', ''cpp'', ''cs'', ''h''] then highlight_c_like content ed
                          else if ext = ''html'' then highlight_html content ed
                          else ed))))"

subsection \<open>Display of overlapping tags\<close>

text \<open>The tags with a foreground colour, in the order in which
  \<open>setup_syntax_highlighting\<close> configures them. (It configures \<open>current_line\<close> last,
  with a background only.)\<close>

definition setup_syntax_highlighting :: "(string \<times> string) list" where
  "setup_syntax_highlighting =
     [(''keyword'', ''#569cd6''), (''string'', ''#ce9178''), (''comment'', ''#6a9955''),
      (''function'', ''#dcdcaa''), (''number'', ''#b5cea8''), (''class'', ''#4ec9b0''),
      (''operator'', ''#d4d4d4''), (''builtin'', ''#4fc1ff'')]"

text \<open>The text widget draws a character in the foreground of the tag of highest priority
  among the tags on it, and a tag, when first configured, gets priority over all
  existing tags: the later a tag is configured, the higher its priority.\<close>

definition covering :: "(string \<times> int \<times> int) list \<Rightarrow> int \<Rightarrow> string list" where
  "covering sps p = map fst (filter (\<lambda>sp. fst (snd sp) \<le> p \<and> p < snd (snd sp)) sps)"

definition shown_tag :: "(string \<times> int \<times> int) list \<Rightarrow> int \<Rightarrow> string option" where
  "shown_tag sps p =
     (case filter (\<lambda>tag. tag \<in> set (covering sps p)) (rev (map fst setup_syntax_highlighting)) of
        [] \<Rightarrow> None
      | tag # _ \<Rightarrow> Some tag)"

subsection \<open>Lines of a text\<close>

text \<open>The lines of a text are what \<open>content.split('\n')\<close> returns, as in \<open>update_minimap\<close>,
  and as many as \<open>update_line_numbers\<close> counts (the line of \<open>end-1c\<close>): a text with \<open>n\<close>
  newlines has \<open>n + 1\<close> lines, the last one empty when the text ends with a newline.\<close>

definition line_count :: "string \<Rightarrow> nat" where
  "line_count content = length (split_on newline content)"

text \<open>The index, from 0, of the line that holds offset \<open>p\<close>.\<close>

definition line_index :: "string \<Rightarrow> int \<Rightarrow> nat" where
  "line_index content p = length (split_on newline (take (nat p) content)) - 1"

text \<open>A span ends the text when it ends at the end of the text or, in a text whose last
  character is a newline, just before that newline.\<close>

definition ends_text :: "string \<Rightarrow> int \<Rightarrow> bool" where
  "ends_text content e =
     (if content \<noteq> [] \<and> last content = newline then e = int (length content) - 1
      else e = int (length content))"

text \<open>A span at the end of the text: it ends the text, and it starts on the last line, or
  on the line before the last when the last line is empty.\<close>

definition at_text_end :: "string \<Rightarrow> string \<times> int \<times> int \<Rightarrow> bool" where
  "at_text_end content sp =
     (ends_text content (snd (snd sp))
      \<and> (Suc (line_index content (fst (snd sp))) = line_count content
         \<or> (Suc (Suc (line_index content (fst (snd sp)))) = line_count content
            \<and> last (split_on newline content) = [])))"

text \<open>The span starts with the two characters \<open>//\<close>.\<close>

definition starts_with_slashes :: "string \<Rightarrow> string \<times> int \<times> int \<Rightarrow> bool" where
  "starts_with_slashes content sp = (take 2 (drop (nat (fst (snd sp))) content) = ''//'')"

text \<open>The span is a block comment on one line: it starts with \<open>/*\<close>, ends with \<open>*/\<close> and
  holds no newline.\<close>

definition block_comment :: "string \<Rightarrow> string \<times> int \<times> int \<Rightarrow> bool" where
  "block_comment content sp =
     (let s = nat (fst (snd sp)); e = nat (snd (snd sp))
      in s + 4 \<le> e \<and> e \<le> length content
         \<and> take 2 (drop s content) = ''/*'' \<and> take 2 (drop (e - 2) content) = ''*/''
         \<and> newline \<notin> set (take (e - s) (drop s content)))"

section \<open>Minimap renderer\<close>

text \<open>\<open>str.lstrip\<close>, \<open>str.rstrip\<close>, \<open>str.strip\<close>, \<open>str.startswith\<close> and the substring test
  \<open>kw in s\<close>.\<close>

definition lstrip :: "string \<Rightarrow> string" where
  "lstrip s = dropWhile is_space s"

definition rstrip :: "string \<Rightarrow> string" where
  "rstrip s = rev (dropWhile is_space (rev s))"

definition strip :: "string \<Rightarrow> string" where
  "strip s = rstrip (lstrip s)"

definition startswith :: "string \<Rightarrow> string \<Rightarrow> bool" where
  "startswith s kw = (take (length kw) s = kw)"

primrec contains :: "string \<Rightarrow> string \<Rightarrow> bool" where
  "contains [] kw = (kw = [])"
| "contains (x # xs) kw = (startswith (x # xs) kw \<or> contains xs kw)"

text \<open>The \<open>if\<close>/\<open>elif\<close> chain that picks \<open>base_color\<close> from the left-stripped line.\<close>

definition base_color :: "string \<Rightarrow> nat \<times> nat \<times> nat" where
  "base_color stripped =
     (if startswith stripped ''#'' \<or> startswith stripped ''//'' then (106, 153, 85)
      else if list_ex (startswith stripped)
                [''def '', ''class '', ''function '', ''public '', ''private '', ''async '',
                 ''const '', ''let '', ''var '']
           then (220, 220, 170)
      else if list_ex (contains stripped) [''import '', ''from '', ''include '', ''using '']
           then (78, 201, 176)
      else if list_ex (startswith stripped)
                [''if '', ''else'', ''for '', ''while '', ''switch '', ''case '', ''return '']
           then (86, 156, 214)
      else (212, 212, 212))"

text \<open>\<open>"#{:02x}{:02x}{:02x}".format(r, g, b)\<close> for components below 256.\<close>

definition hex2 :: "nat \<Rightarrow> string" where
  "hex2 n = [''0123456789abcdef'' ! (n div 16), ''0123456789abcdef'' ! (n mod 16)]"

definition color_string :: "nat \<times> nat \<times> nat \<Rightarrow> string" where
  "color_string c = CHR ''#'' # hex2 (fst c) @ hex2 (fst (snd c)) @ hex2 (snd (snd c))"

text \<open>A rectangle on the minimap canvas: its corners, fill and outline colour (the empty
  string for none), outline width and item tag.\<close>

record rectangle =
  x0 :: int
  y0 :: int
  x1 :: int
  y1 :: int
  fill :: string
  outline :: string
  width :: int
  item_tag :: string

text \<open>What a call reads from the widgets: whether the minimap is shown, the size of its
  canvas, and the numbers of the first and last visible line of the text. The two
  products computed in floating point are parameters of the model:
  \<open>scaled_indent indent_level canvas_width\<close> is
  \<open>int((indent_level / 4) * (canvas_width / 15))\<close> and \<open>scaled_width line_length w\<close> is
  \<open>int(min(1.0, line_length / 100) * w)\<close>. The queries to the widgets are taken to
  succeed, and the scroll position of the canvas is not part of the model.\<close>

record minimap_view =
  minimap_visible :: bool
  canvas_height :: int
  canvas_width :: int
  first_visible_line :: int
  last_visible_line :: int
  scaled_indent :: "nat \<Rightarrow> int \<Rightarrow> int"
  scaled_width :: "nat \<Rightarrow> int \<Rightarrow> int"

definition line_height :: int where
  "line_height = 2"

definition line_gap :: int where
  "line_gap = 1"

definition pixels_per_line :: int where
  "pixels_per_line = line_height + line_gap"

text \<open>The body of the loop over the visible lines: the rectangle drawn for line \<open>i\<close>, if
  any.\<close>

definition draw_line :: "minimap_view \<Rightarrow> string list \<Rightarrow> nat \<Rightarrow> rectangle list" where
  "draw_line v lines i =
     (let line = lines ! i;
          y = int i * pixels_per_line
      in if strip line = [] then []
         else
           (let indent_level = length line - length (lstrip line);
                stripped = lstrip line;
                color = base_color stripped;
                line_length = length (rstrip line);
                indent_offset = min (canvas_width v div 3) (scaled_indent v indent_level (canvas_width v));
                content_width = scaled_width v line_length (canvas_width v - indent_offset)
            in if content_width > 0
               then [\<lparr>x0 = indent_offset, y0 = y, x1 = indent_offset + content_width,
                      y1 = y + line_height, fill = color_string color, outline = [],
                      width = 1, item_tag = []\<rparr>]
               else []))"

text \<open>The outline that marks the visible part of the text.\<close>

definition viewport_indicator :: "minimap_view \<Rightarrow> rectangle" where
  "viewport_indicator v =
     (let viewport_start = (first_visible_line v - 1) * pixels_per_line;
          viewport_height = (last_visible_line v - first_visible_line v + 1) * pixels_per_line
      in \<lparr>x0 = 0, y0 = viewport_start, x1 = canvas_width v, y1 = viewport_start + viewport_height,
          fill = [], outline = ''#569cd6'', width = 2, item_tag = ''viewport''\<rparr>)"

text \<open>\<open>update_minimap\<close>: the items on the canvas after the call, from the items before it.\<close>

definition update_minimap :: "minimap_view \<Rightarrow> string \<Rightarrow> rectangle list \<Rightarrow> rectangle list" where
  "update_minimap v content items =
     (if \<not> minimap_visible v then items
      else
        (let lines = split_on newline content
         in if lines = [] then []
            else if canvas_height v \<le> 1 \<or> canvas_width v \<le> 1 then []
            else
              (let total_lines = int (length lines);
                   visible_start = max 0 (first_visible_line v - 50);
                   visible_end = min total_lines (first_visible_line v + 200)
               in concat (map (draw_line v lines) [nat visible_start..<nat visible_end])
                  @ [viewport_indicator v])))"

subsection \<open>The classification, as the specification words it\<close>

text \<open>The categories by their colours, and the rules in their order: the first rule that
  matches the left-stripped line gives the category, and a line that matches none is
  plain.\<close>

definition Comment :: "nat \<times> nat \<times> nat" where
  "Comment = (106, 153, 85)"

definition Definition :: "nat \<times> nat \<times> nat" where
  "Definition = (220, 220, 170)"

definition Import :: "nat \<times> nat \<times> nat" where
  "Import = (78, 201, 176)"

definition ControlFlow :: "nat \<times> nat \<times> nat" where
  "ControlFlow = (86, 156, 214)"

definition Plain :: "nat \<times> nat \<times> nat" where
  "Plain = (212, 212, 212)"

definition minimap_rules :: "((string \<Rightarrow> bool) \<times> (nat \<times> nat \<times> nat)) list" where
  "minimap_rules =
     [(\<lambda>s. \<exists>kw \<in> set [''#'', ''//'']. startswith s kw, Comment),
      (\<lambda>s. \<exists>kw \<in> set [''def '', ''class '', ''function '', ''public '', ''private '', ''async '',
                        ''const '', ''let '', ''var '']. startswith s kw, Definition),
      (\<lambda>s. \<exists>kw \<in> set [''import '', ''from '', ''include '', ''using '']. contains s kw, Import),
      (\<lambda>s. \<exists>kw \<in> set [''if '', ''else'', ''for '', ''while '', ''switch '', ''case '', ''return ''].
              startswith s kw, ControlFlow)]"

definition first_rule :: "((string \<Rightarrow> bool) \<times> (nat \<times> nat \<times> nat)) list \<Rightarrow> string \<Rightarrow> nat \<times> nat \<times> nat" where
  "first_rule rules s = (case List.find (\<lambda>rule. fst rule s) rules of None \<Rightarrow> Plain | Some rule \<Rightarrow> snd rule)"

section \<open>Notions used in the properties\<close>

text \<open>Patterns that cannot match the empty string, and patterns whose matches end with
  a non-empty group 1.\<close>

primrec consumes :: "regex \<Rightarrow> bool" where
  "consumes (Sym p) = True"
| "consumes (Lit w) = (w \<noteq> [])"
| "consumes Eps = False"
| "consumes (Cat a b) = (consumes a \<or> consumes b)"
| "consumes (Alt a b) = (consumes a \<and> consumes b)"
| "consumes (Star a) = False"
| "consumes (LazyStar a) = False"
| "consumes WordB = False"
| "consumes Eol = False"
| "consumes (Grp a) = consumes a"

primrec ends_in_group :: "regex \<Rightarrow> bool" where
  "ends_in_group (Sym p) = False"
| "ends_in_group (Lit w) = False"
| "ends_in_group Eps = False"
| "ends_in_group (Cat a b) = ends_in_group b"
| "ends_in_group (Alt a b) = False"
| "ends_in_group (Star a) = False"
| "ends_in_group (LazyStar a) = False"
| "ends_in_group WordB = False"
| "ends_in_group Eol = False"
| "ends_in_group (Grp a) = consumes a"

text \<open>The spans one rule adds, and the spans of each profile in rule order.\<close>

definition whole_spans :: "string \<Rightarrow> regex \<Rightarrow> string \<Rightarrow> (string \<times> int \<times> int) list" where
  "whole_spans tag r content = map (\<lambda>m. (tag, m_start m, m_end m)) (finditer r content)"

definition group_spans :: "string \<Rightarrow> regex \<Rightarrow> string \<Rightarrow> (string \<times> int \<times> int) list" where
  "group_spans tag r content = map (\<lambda>m. (tag, m_start1 m, m_end1 m)) (finditer r content)"

definition py_spans :: "string \<Rightarrow> (string \<times> int \<times> int) list" where
  "py_spans content =
     whole_spans ''keyword'' py_keywords content @ whole_spans ''builtin'' py_builtins content
     @ whole_spans ''string'' py_strings content @ whole_spans ''comment'' py_comments content
     @ whole_spans ''number'' numbers content @ group_spans ''function'' py_functions content
     @ group_spans ''class'' py_classes content"

definition js_spans :: "string \<Rightarrow> (string \<times> int \<times> int) list" where
  "js_spans content =
     whole_spans ''keyword'' js_keywords content @ whole_spans ''string'' js_strings content
     @ whole_spans ''comment'' slash_comments content @ whole_spans ''number'' numbers content"

definition c_spans :: "string \<Rightarrow> (string \<times> int \<times> int) list" where
  "c_spans content =
     whole_spans ''keyword'' c_keywords content @ whole_spans ''string'' c_strings content
     @ whole_spans ''comment'' slash_comments content @ whole_spans ''number'' numbers content"

definition html_spans :: "string \<Rightarrow> (string \<times> int \<times> int) list" where
  "html_spans content =
     whole_spans ''keyword'' html_tags content @ whole_spans ''comment'' html_comments content
     @ whole_spans ''string'' html_strings content"

definition ext_spans :: "string \<Rightarrow> string \<Rightarrow> (string \<times> int \<times> int) list" where
  "ext_spans ext content =
     (if ext = ''py'' then py_spans content
      else if ext \<in> set [''js'', ''ts'', ''jsx'', ''tsx''] then js_spans content
      else if ext \<in> set [''java'', ''c'', ''cpp'', ''cs'', ''h''] then c_spans content
      else if ext = ''html'' then html_spans content
      else [])"

text \<open>Every key of the cache is used with one pattern. A cache is sound when each entry
  holds the pattern of its key; the empty cache is, and highlighting keeps it so.\<close>

definition rule_table :: "(string \<times> regex) list" where
  "rule_table =
     [(''py_keywords'', py_keywords), (''py_builtins'', py_builtins), (''py_comments'', py_comments),
      (''py_numbers'', numbers), (''py_functions'', py_functions), (''py_classes'', py_classes),
      (''js_keywords'', js_keywords), (''js_strings'', js_strings), (''js_comments'', slash_comments),
      (''js_numbers'', numbers), (''c_keywords'', c_keywords), (''c_strings'', c_strings),
      (''c_comments'', slash_comments), (''c_numbers'', numbers), (''html_tags'', html_tags)]"

definition cache_ok :: "(string \<rightharpoonup> regex) \<Rightarrow> bool" where
  "cache_ok c = (c \<subseteq>\<^sub>m map_of rule_table)"

definition span_ok :: "string \<Rightarrow> string \<times> int \<times> int \<Rightarrow> bool" where
  "span_ok content sp = (0 \<le> fst (snd sp) \<and> fst (snd sp) < snd (snd sp) \<and> snd (snd sp) \<le> int (length content))"

definition untagged :: "(string \<times> int \<times> int) list \<Rightarrow> (string \<times> int \<times> int) list" where
  "untagged sps = filter (\<lambda>sp. fst sp \<notin> set syntax_tags) sps"

section \<open>Properties of the bracket matcher\<close>

lemma balance_Suc:
  "a \<noteq> b \<Longrightarrow> balance content a b start d (Suc n) =
     bump (content ! nat (start + int n * d)) a b (balance content a b start d n)"
  by (simp add: balance_def visited_def bump_def)

lemma scan_loop_balanced:
  assumes d: "d = 1 \<or> d = - 1" and ab: "a \<noteq> b"
    and s0: "0 \<le> start" and s1: "start < int (length content)"
  shows "1 \<le> k \<Longrightarrow> k \<le> room content start d \<Longrightarrow>
     scan_loop content start a b d (balance content a b start d k) (start + int k * d) =
       Some (case List.find (\<lambda>k. balance content a b start d (Suc k) = 0) [k..<room content start d] of
               None \<Rightarrow> Unmatched
             | Some j \<Rightarrow> Matched start (start + int j * d))"
proof (induction "room content start d - k" arbitrary: k)
  case 0
  then have k: "k = room content start d" by simp
  have nb: "\<not> (0 \<le> start + int k * d \<and> start + int k * d < int (length content))"
    using d s0 s1 k by (auto simp: room_def)
  have "scan_loop content start a b d (balance content a b start d k) (start + int k * d) = Some Unmatched"
    by (subst scan_loop.simps) (simp only: nb if_False)
  then show ?case
    using k by simp
next
  case (Suc m)
  then have lt: "k < room content start d" by simp
  have inb: "0 \<le> start + int k * d \<and> start + int k * d < int (length content)"
    using d s0 s1 lt by (auto simp: room_def)
  have ne: "start + int k * d \<noteq> start" using d Suc.prems by auto
  have idx: "py_index content (start + int k * d) = Inr (content ! nat (start + int k * d))"
    using inb by (simp add: py_index_def)
  have step: "start + int k * d + d = start + int (Suc k) * d"
    by (simp add: algebra_simps)
  have upt: "[k..<room content start d] = k # [Suc k..<room content start d]"
    using lt by (simp add: upt_conv_Cons)
  have IH: "scan_loop content start a b d (balance content a b start d (Suc k)) (start + int (Suc k) * d) =
       Some (case List.find (\<lambda>k. balance content a b start d (Suc k) = 0) [Suc k..<room content start d] of
               None \<Rightarrow> Unmatched
             | Some j \<Rightarrow> Matched start (start + int j * d))"
    using Suc.hyps(1)[of "Suc k"] Suc.hyps(2) lt by simp
  show ?case
    apply (subst scan_loop.simps)
    apply (simp only: inb idx sum.case balance_Suc[OF ab, symmetric] step upt find.simps)
    using ne IH by simp
qed

lemma find_matching_bracket_balanced:
  assumes d: "d = 1 \<or> d = - 1" and ab: "a \<noteq> b"
    and s0: "0 \<le> start" and s1: "start < int (length content)"
  shows "find_matching_bracket content start a b d = Some (balanced_scan content start a b d)"
proof -
  have r: "1 \<le> room content start d" using d s0 s1 by (auto simp: room_def)
  have idx: "py_index content start = Inr (content ! nat start)"
    using s0 s1 by (simp add: py_index_def)
  have b1: "bump (content ! nat start) a b 0 = balance content a b start d 1"
    using balance_Suc[OF ab, of content start d 0] by (simp add: balance_def visited_def)
  have "find_matching_bracket content start a b d =
          scan_loop content start a b d (balance content a b start d 1) (start + int 1 * d)"
    unfolding find_matching_bracket_def
    apply (subst scan_loop.simps)
    using s0 s1 by (simp add: idx b1)
  also have "\<dots> = Some (balanced_scan content start a b d)"
    unfolding balanced_scan_def
    by (rule scan_loop_balanced[OF d ab s0 s1]) (use r in simp_all)
  finally show ?thesis .
qed

lemma check_anchor_spec:
  assumes "\<And>c. ch = Some c \<Longrightarrow> c \<in> set ''([{<)]}>'' \<Longrightarrow> 0 \<le> pos \<and> pos < int (length content)"
  shows "check_anchor content pos ch = Some (anchor_spec content pos ch)"
proof (cases ch)
  case None
  then show ?thesis by (simp add: check_anchor_def anchor_spec_def)
next
  case (Some c)
  show ?thesis
  proof (cases "c \<in> set ''([{<)]}>''")
    case False
    then show ?thesis
      using Some by (simp add: check_anchor_def anchor_spec_def matching_pairs_def closing_pairs_def)
  next
    case True
    then have b: "0 \<le> pos" "pos < int (length content)" using assms Some by auto
    from True consider "c \<in> set ''([{<''" | "c \<in> set '')]}>''" by auto
    then show ?thesis
    proof cases
      case 1
      then have cl: "map_of matching_pairs c = Some (counterpart c)" "c \<noteq> counterpart c"
        by (auto simp: matching_pairs_def counterpart_def)
      have "find_matching_bracket content pos c (counterpart c) 1
              = Some (balanced_scan content pos c (counterpart c) 1)"
        by (rule find_matching_bracket_balanced) (use b cl in simp_all)
      then show ?thesis
        using Some 1 cl by (simp add: check_anchor_def anchor_spec_def)
    next
      case 2
      then have opn: "map_of closing_pairs c = Some (counterpart c)" "c \<noteq> counterpart c"
        by (auto simp: matching_pairs_def closing_pairs_def counterpart_def)
      have no: "map_of matching_pairs c = None" "c \<notin> set ''([{<''"
        using 2 by (auto simp: matching_pairs_def)
      have "find_matching_bracket content pos c (counterpart c) (- 1)
              = Some (balanced_scan content pos c (counterpart c) (- 1))"
        by (rule find_matching_bracket_balanced) (use b opn in simp_all)
      then show ?thesis
        using Some 2 no opn by (simp add: check_anchor_def anchor_spec_def)
    qed
  qed
qed

lemma highlight_matching_bracket_spec:
  assumes "cursor \<le> length content"
  shows "highlight_matching_bracket content cursor = Some (matchAt_spec content cursor)"
proof -
  have before: "check_anchor content (int cursor - 1) (char_before content cursor) =
                  Some (anchor_spec content (int cursor - 1) (char_before content cursor))"
    by (rule check_anchor_spec) (use assms in \<open>auto simp: char_before_def split: if_splits\<close>)
  have after: "check_anchor content (int cursor) (char_after content cursor) =
                  Some (anchor_spec content (int cursor) (char_after content cursor))"
    by (rule check_anchor_spec) (use assms in \<open>auto simp: char_after_def split: if_splits\<close>)
  show ?thesis
    by (simp add: highlight_matching_bracket_def matchAt_spec_def before after)
qed

lemma balanced_scan_not_Raised:
  "balanced_scan content start a b d \<noteq> Raised e" "Raised e \<noteq> balanced_scan content start a b d"
  by (simp_all add: balanced_scan_def split: option.splits)

lemma anchor_spec_not_Raised: "r \<in> set (anchor_spec content pos ch) \<Longrightarrow> r \<noteq> Raised e"
proof (cases ch)
  case None
  then show "r \<in> set (anchor_spec content pos ch) \<Longrightarrow> r \<noteq> Raised e"
    by (simp add: anchor_spec_def)
next
  case (Some c)
  have "anchor_spec content pos ch = [] \<or> (\<exists>a b d. anchor_spec content pos ch = [balanced_scan content pos a b d])"
    unfolding anchor_spec_def Some option.case
    by (cases "c \<in> set ''([{<''"; cases "c \<in> set '')]}>''") (simp_all only: if_True if_False, blast+)
  then show "r \<in> set (anchor_spec content pos ch) \<Longrightarrow> r \<noteq> Raised e"
    by (auto simp: balanced_scan_not_Raised)
qed

lemma matchAt_spec_not_Raised: "r \<in> set (matchAt_spec content cursor) \<Longrightarrow> r \<noteq> Raised e"
  using anchor_spec_not_Raised [of r] by (auto simp: matchAt_spec_def)

lemmas bracket_eval =
  highlight_matching_bracket_def check_anchor_def char_before_def char_after_def
  find_matching_bracket_def matching_pairs_def closing_pairs_def py_index_def bump_def

text \<open>
  Claim C2. The bracket matcher is balanced counting: for a cursor inside the text, the
  scans started by \<open>highlight_matching_bracket\<close> return exactly what the specification's
  wording gives (for an opener before or after the cursor a forward scan, for a closer a
  backward scan; the count rises on the anchor character, falls on its counterpart, and
  the match is the first position other than the anchor where it is 0 again, none when
  the buffer ends first). With the text \<open>(\<close> and the cursor at 1 no match is reported;
  with \<open>()\<close> and the cursor at 1 the anchor before the cursor reports the pair of
  offsets 0 and 1.
\<close>

theorem bracket_matcher_balanced_counting:
  "(cursor \<le> length content \<longrightarrow>
      highlight_matching_bracket content cursor = Some (matchAt_spec content cursor))
   \<and> highlight_matching_bracket ''('' 1 = Some [Unmatched]
   \<and> highlight_matching_bracket ''()'' 1 = Some [Matched 0 1, Matched 1 0]"
proof (intro conjI impI)
  show "highlight_matching_bracket ''('' 1 = Some [Unmatched]"
    by (simp add: bracket_eval scan_loop.simps)
  show "highlight_matching_bracket ''()'' 1 = Some [Matched 0 1, Matched 1 0]"
    by (simp add: bracket_eval scan_loop.simps)
qed (rule highlight_matching_bracket_spec)

theorem bracket_matcher_balanced_counting_witness:
  "(2::nat) \<le> length ''f(a[1])'' \<and> matchAt_spec ''f(a[1])'' 2 = [Matched 1 6]
   \<and> highlight_matching_bracket ''f(a[1])'' 2 = Some [Matched 1 6]"
proof -
  have s: "matchAt_spec ''f(a[1])'' 2 = [Matched 1 6]"
    by code_simp
  show ?thesis
    using bracket_matcher_balanced_counting [of 2 "''f(a[1])''"] s by simp
qed

text \<open>
  Claim C6. The bracket matcher is total: for every text, the empty one included, and
  every cursor offset from 0 to the length of the text, \<open>highlight_matching_bracket\<close>
  returns, and none of its scans raises an index error.
\<close>

theorem bracket_matcher_total:
  "cursor \<le> length content \<Longrightarrow>
     \<exists>outs. highlight_matching_bracket content cursor = Some outs
            \<and> (\<forall>r \<in> set outs. \<forall>e. r \<noteq> Raised e)"
  using highlight_matching_bracket_spec [of cursor content] matchAt_spec_not_Raised
  by blast

theorem bracket_matcher_total_witness:
  "(0::nat) \<le> length '''' \<and> (1::nat) \<le> length '')''
   \<and> (\<exists>outs. highlight_matching_bracket '''' 0 = Some outs \<and> (\<forall>r \<in> set outs. \<forall>e. r \<noteq> Raised e))
   \<and> (\<exists>outs. highlight_matching_bracket '')'' 1 = Some outs \<and> (\<forall>r \<in> set outs. \<forall>e. r \<noteq> Raised e))"
  using bracket_matcher_total [of 0 "''''"] bracket_matcher_total [of 1 "'')''"] by simp

section \<open>Properties of the matcher\<close>

lemma star_greedy_inv:
  assumes step: "\<And>s s'. P s \<Longrightarrow> s' \<in> set (f s) \<Longrightarrow> P s'"
  shows "P s \<Longrightarrow> s' \<in> set (star_greedy f n s) \<Longrightarrow> P s'"
proof (induction n arbitrary: s)
  case 0
  then show ?case by simp
next
  case (Suc n)
  from Suc.prems(2) consider "s' = s"
    | m where "m \<in> set (f s)" "s' \<in> set (star_greedy f n m)"
    by auto
  then show ?case
  proof cases
    case 1
    then show ?thesis using Suc.prems(1) by simp
  next
    case 2
    then show ?thesis using Suc.IH[of m] step[OF Suc.prems(1)] by simp
  qed
qed

lemma star_lazy_inv:
  assumes step: "\<And>s s'. P s \<Longrightarrow> s' \<in> set (f s) \<Longrightarrow> P s'"
  shows "P s \<Longrightarrow> s' \<in> set (star_lazy f n s) \<Longrightarrow> P s'"
proof (induction n arbitrary: s)
  case 0
  then show ?case by simp
next
  case (Suc n)
  from Suc.prems(2) consider "s' = s"
    | m where "m \<in> set (f s)" "s' \<in> set (star_lazy f n m)"
    by auto
  then show ?case
  proof cases
    case 1
    then show ?thesis using Suc.prems(1) by simp
  next
    case 2
    then show ?thesis using Suc.IH[of m] step[OF Suc.prems(1)] by simp
  qed
qed

lemma Lit_fits:
  assumes "take (length w) (drop i t) = w" and "i \<le> length t"
  shows "i + length w \<le> length t"
proof -
  have "length w = length (take (length w) (drop i t))" using assms(1) by simp
  then have "length w \<le> length t - i" by simp
  then show ?thesis using assms(2) by simp
qed

lemma rmatch_le: "fst s \<le> length t \<Longrightarrow> s' \<in> set (rmatch r t s) \<Longrightarrow> fst s' \<le> length t"
proof (induction r arbitrary: s s')
  case (Lit w)
  then show ?case using Lit_fits[of w "fst s" t] by (simp split: if_splits)
next
  case (Cat a b)
  from Cat.prems obtain m where "m \<in> set (rmatch a t s)" "s' \<in> set (rmatch b t m)"
    by auto
  then show ?case using Cat.IH(1)[of s m] Cat.IH(2)[of m s'] Cat.prems(1) by simp
next
  case (Alt a b)
  from Alt.prems have "s' \<in> set (rmatch a t s) \<or> s' \<in> set (rmatch b t s)" by simp
  then show ?case using Alt.IH Alt.prems(1) by blast
next
  case (Star a)
  show ?case
    by (rule star_greedy_inv[of "\<lambda>s. fst s \<le> length t" "rmatch a t" s s' "length t - fst s"])
       (use Star in simp_all)
next
  case (LazyStar a)
  show ?case
    by (rule star_lazy_inv[of "\<lambda>s. fst s \<le> length t" "rmatch a t" s s' "length t - fst s"])
       (use LazyStar in simp_all)
next
  case (Grp a)
  from Grp.prems obtain m where "m \<in> set (rmatch a t s)" "fst s' = fst m" by auto
  then show ?case using Grp.IH[of s m] Grp.prems(1) by simp
qed (auto split: if_splits)

text \<open>The fuel of a repeat is enough: more of it gives the same matches.\<close>

lemma star_greedy_fuel:
  assumes f: "\<And>s s'. fst s \<le> L \<Longrightarrow> s' \<in> set (f s) \<Longrightarrow> fst s' \<le> L"
  shows "fst s \<le> L \<Longrightarrow> L - fst s \<le> n \<Longrightarrow> star_greedy f (Suc n) s = star_greedy f n s"
proof (induction n arbitrary: s)
  case 0
  have "\<not> fst s < fst s'" if "s' \<in> set (f s)" for s'
  proof -
    have "fst s' \<le> L" using f[OF "0.prems"(1) that] .
    then show ?thesis using "0.prems" by arith
  qed
  then have "filter (\<lambda>s'. fst s < fst s') (f s) = []"
    by (simp add: filter_empty_conv)
  then show ?case by simp
next
  case (Suc n)
  have m: "map (star_greedy f (Suc n)) (filter (\<lambda>s'. fst s < fst s') (f s)) =
        map (star_greedy f n) (filter (\<lambda>s'. fst s < fst s') (f s))"
  proof (rule map_cong[OF refl])
    fix s' assume "s' \<in> set (filter (\<lambda>s'. fst s < fst s') (f s))"
    then have "fst s' \<le> L" "L - fst s' \<le> n" using f[of s s'] Suc.prems by auto
    then show "star_greedy f (Suc n) s' = star_greedy f n s'" by (rule Suc.IH)
  qed
  have "star_greedy f (Suc (Suc n)) s = concat (map (star_greedy f (Suc n)) (filter (\<lambda>s'. fst s < fst s') (f s))) @ [s]"
    by (rule star_greedy.simps(2))
  also have "\<dots> = concat (map (star_greedy f n) (filter (\<lambda>s'. fst s < fst s') (f s))) @ [s]"
    by (simp only: m)
  also have "\<dots> = star_greedy f (Suc n) s"
    by (rule star_greedy.simps(2)[symmetric])
  finally show ?case .
qed

lemma star_lazy_fuel:
  assumes f: "\<And>s s'. fst s \<le> L \<Longrightarrow> s' \<in> set (f s) \<Longrightarrow> fst s' \<le> L"
  shows "fst s \<le> L \<Longrightarrow> L - fst s \<le> n \<Longrightarrow> star_lazy f (Suc n) s = star_lazy f n s"
proof (induction n arbitrary: s)
  case 0
  have "\<not> fst s < fst s'" if "s' \<in> set (f s)" for s'
  proof -
    have "fst s' \<le> L" using f[OF "0.prems"(1) that] .
    then show ?thesis using "0.prems" by arith
  qed
  then have "filter (\<lambda>s'. fst s < fst s') (f s) = []"
    by (simp add: filter_empty_conv)
  then show ?case by simp
next
  case (Suc n)
  have m: "map (star_lazy f (Suc n)) (filter (\<lambda>s'. fst s < fst s') (f s)) =
        map (star_lazy f n) (filter (\<lambda>s'. fst s < fst s') (f s))"
  proof (rule map_cong[OF refl])
    fix s' assume "s' \<in> set (filter (\<lambda>s'. fst s < fst s') (f s))"
    then have "fst s' \<le> L" "L - fst s' \<le> n" using f[of s s'] Suc.prems by auto
    then show "star_lazy f (Suc n) s' = star_lazy f n s'" by (rule Suc.IH)
  qed
  have "star_lazy f (Suc (Suc n)) s = s # concat (map (star_lazy f (Suc n)) (filter (\<lambda>s'. fst s < fst s') (f s)))"
    by (rule star_lazy.simps(2))
  also have "\<dots> = s # concat (map (star_lazy f n) (filter (\<lambda>s'. fst s < fst s') (f s)))"
    by (simp only: m)
  also have "\<dots> = star_lazy f (Suc n) s"
    by (rule star_lazy.simps(2)[symmetric])
  finally show ?case .
qed

lemma repeat_fuel_enough:
  assumes "fst s \<le> length t"
  shows "star_greedy (rmatch a t) (length t - fst s + k) s = star_greedy (rmatch a t) (length t - fst s) s"
    and "star_lazy (rmatch a t) (length t - fst s + k) s = star_lazy (rmatch a t) (length t - fst s) s"
proof -
  have g: "star_greedy (rmatch a t) (Suc n) s = star_greedy (rmatch a t) n s"
    if "length t - fst s \<le> n" for n
    by (rule star_greedy_fuel[of "length t"]) (use rmatch_le assms that in auto)
  have l: "star_lazy (rmatch a t) (Suc n) s = star_lazy (rmatch a t) n s"
    if "length t - fst s \<le> n" for n
    by (rule star_lazy_fuel[of "length t"]) (use rmatch_le assms that in auto)
  show "star_greedy (rmatch a t) (length t - fst s + k) s = star_greedy (rmatch a t) (length t - fst s) s"
  proof (induction k)
    case 0
    show ?case by simp
  next
    case (Suc k)
    have "star_greedy (rmatch a t) (Suc (length t - fst s + k)) s
            = star_greedy (rmatch a t) (length t - fst s + k) s"
      by (rule g) simp
    then show ?case using Suc by (simp only: add_Suc_right)
  qed
  show "star_lazy (rmatch a t) (length t - fst s + k) s = star_lazy (rmatch a t) (length t - fst s) s"
  proof (induction k)
    case 0
    show ?case by simp
  next
    case (Suc k)
    have "star_lazy (rmatch a t) (Suc (length t - fst s + k)) s
            = star_lazy (rmatch a t) (length t - fst s + k) s"
      by (rule l) simp
    then show ?case using Suc by (simp only: add_Suc_right)
  qed
qed

lemma rmatch_consumes: "consumes r \<Longrightarrow> s' \<in> set (rmatch r t s) \<Longrightarrow> fst s < fst s'"
proof (induction r arbitrary: s s')
  case (Cat a b)
  from Cat.prems obtain m where m: "m \<in> set (rmatch a t s)" "s' \<in> set (rmatch b t m)"
    by auto
  from Cat.prems(1) consider "consumes a" | "consumes b" by auto
  then show ?case
  proof cases
    case 1
    then show ?thesis using Cat.IH(1)[of m s] rmatch_ge[OF m(2)] m(1) by simp
  next
    case 2
    then show ?thesis using Cat.IH(2)[of s' m] rmatch_ge[OF m(1)] m(2) by simp
  qed
next
  case (Alt a b)
  from Alt.prems have "s' \<in> set (rmatch a t s) \<or> s' \<in> set (rmatch b t s)" by simp
  moreover have "consumes a" "consumes b" using Alt.prems(1) by simp_all
  ultimately show ?case using Alt.IH(1)[of s' s] Alt.IH(2)[of s' s] by blast
next
  case (Grp a)
  from Grp.prems obtain m where "m \<in> set (rmatch a t s)" "fst s' = fst m" by auto
  then show ?case using Grp.IH[of m s] Grp.prems(1) by simp
qed (auto split: if_splits)

lemma rmatch_group:
  "ends_in_group r \<Longrightarrow> s' \<in> set (rmatch r t s) \<Longrightarrow>
     \<exists>a. snd s' = Some (a, fst s') \<and> fst s \<le> a \<and> a < fst s'"
proof (induction r arbitrary: s s')
  case (Cat a b)
  from Cat.prems obtain m where m: "m \<in> set (rmatch a t s)" "s' \<in> set (rmatch b t m)"
    by auto
  from Cat.IH(2)[of s' m] Cat.prems(1) m(2)
  obtain g where "snd s' = Some (g, fst s')" "fst m \<le> g" "g < fst s'" by auto
  then show ?case using rmatch_ge[OF m(1)] by auto
next
  case (Grp a)
  from Grp.prems obtain m where m: "m \<in> set (rmatch a t s)" "s' = (fst m, Some (fst s, fst m))"
    by auto
  then show ?case using rmatch_consumes[of a m t s] Grp.prems(1) by simp
qed simp_all

lemma finditer_from_match:
  "m \<in> set (finditer_from r t p adv) \<Longrightarrow>
     p \<le> fst m \<and> fst m \<le> length t \<and> snd m \<in> set (rmatch r t (fst m, None))"
proof (induction r t p adv rule: finditer_from.induct)
  case (1 r t pos must_advance)
  let ?cands = "filter (\<lambda>s'. \<not> (must_advance \<and> fst s' = pos)) (rmatch r t (pos, None))"
  from "1.prems" have inb: "\<not> length t < pos"
    by (subst (asm) finditer_from.simps) (simp split: if_splits)
  show ?case
  proof (cases ?cands)
    case Nil
    then have "m \<in> set (finditer_from r t (Suc pos) False)"
      using "1.prems" inb by (subst (asm) finditer_from.simps) simp
    then show ?thesis using "1.IH"(1)[OF inb Nil] by simp
  next
    case (Cons s' rest)
    then have "m = (pos, s') \<or> m \<in> set (finditer_from r t (fst s') (fst s' = pos))"
      using "1.prems" inb by (subst (asm) finditer_from.simps) simp
    then show ?thesis
    proof
      assume "m = (pos, s')"
      then show ?thesis using filter_eq_ConsD[OF Cons] inb by simp
    next
      assume a: "m \<in> set (finditer_from r t (fst s') (fst s' = pos))"
      have "pos \<le> fst s'" using filter_eq_ConsD[OF Cons] rmatch_ge[of s' r t "(pos, None)"] by simp
      then show ?thesis using "1.IH"(2)[OF inb Cons a] by simp
    qed
  qed
qed

lemma finditer_whole:
  assumes "m \<in> set (finditer r t)" and "consumes r"
  shows "0 \<le> m_start m \<and> m_start m < m_end m \<and> m_end m \<le> int (length t)"
proof -
  from assms(1) have f: "fst m \<le> length t" "snd m \<in> set (rmatch r t (fst m, None))"
    using finditer_from_match[of m r t 0 False] by (simp_all add: finditer_def)
  have "fst m < fst (snd m)" using rmatch_consumes[OF assms(2) f(2)] by simp
  moreover have "fst (snd m) \<le> length t" using rmatch_le[OF _ f(2)] f(1) by simp
  ultimately show ?thesis by (simp add: m_start_def m_end_def)
qed

lemma finditer_group:
  assumes "m \<in> set (finditer r t)" and "ends_in_group r"
  shows "0 \<le> m_start1 m \<and> m_start1 m < m_end1 m \<and> m_end1 m \<le> int (length t)"
proof -
  from assms(1) have f: "fst m \<le> length t" "snd m \<in> set (rmatch r t (fst m, None))"
    using finditer_from_match[of m r t 0 False] by (simp_all add: finditer_def)
  from rmatch_group[OF assms(2) f(2)]
  obtain a where a: "snd (snd m) = Some (a, fst (snd m))" "a < fst (snd m)" by auto
  moreover have "fst (snd m) \<le> length t" using rmatch_le[OF _ f(2)] f(1) by simp
  ultimately show ?thesis by (simp add: m_start1_def m_end1_def)
qed

section \<open>Properties of the highlight engine\<close>

lemma cache_ok_empty: "cache_ok Map.empty"
  by (simp add: cache_ok_def)

lemma rule_table_lookup:
  "map_of rule_table ''py_keywords'' = Some py_keywords"
  "map_of rule_table ''py_builtins'' = Some py_builtins"
  "map_of rule_table ''py_comments'' = Some py_comments"
  "map_of rule_table ''py_numbers'' = Some numbers"
  "map_of rule_table ''py_functions'' = Some py_functions"
  "map_of rule_table ''py_classes'' = Some py_classes"
  "map_of rule_table ''js_keywords'' = Some js_keywords"
  "map_of rule_table ''js_strings'' = Some js_strings"
  "map_of rule_table ''js_comments'' = Some slash_comments"
  "map_of rule_table ''js_numbers'' = Some numbers"
  "map_of rule_table ''c_keywords'' = Some c_keywords"
  "map_of rule_table ''c_strings'' = Some c_strings"
  "map_of rule_table ''c_comments'' = Some slash_comments"
  "map_of rule_table ''c_numbers'' = Some numbers"
  "map_of rule_table ''html_tags'' = Some html_tags"
  by (simp_all add: rule_table_def)

lemma cache_ok_upd:
  "cache_ok c \<Longrightarrow> map_of rule_table key = Some pattern \<Longrightarrow> cache_ok (c(key \<mapsto> pattern))"
  by (auto simp: cache_ok_def map_le_def)

lemma get_compiled_regex_ok:
  assumes "cache_ok (regex_cache ed)" and "map_of rule_table key = Some pattern"
  shows "get_compiled_regex pattern key ed =
           (pattern, ed\<lparr>regex_cache := (regex_cache ed)(key \<mapsto> pattern)\<rparr>)"
proof (cases "regex_cache ed key")
  case None
  then show ?thesis by (simp add: get_compiled_regex_def)
next
  case (Some compiled)
  then have "map_of rule_table key = Some compiled"
    using assms(1) by (auto simp: cache_ok_def map_le_def dom_def)
  then have c: "compiled = pattern" using assms(2) by simp
  then have "(regex_cache ed)(key \<mapsto> pattern) = regex_cache ed"
    using Some by (simp add: fun_upd_idem)
  then show ?thesis using Some c by (simp add: get_compiled_regex_def)
qed

lemma tags_tag_matches:
  "tags (tag_matches tag ms ed) = tags ed @ map (\<lambda>m. (tag, m_start m, m_end m)) ms"
  unfolding tag_matches_def by (induction ms arbitrary: ed) (simp_all add: tag_add_def)

lemma tags_tag_groups:
  "tags (tag_groups tag ms ed) = tags ed @ map (\<lambda>m. (tag, m_start1 m, m_end1 m)) ms"
  unfolding tag_groups_def by (induction ms arbitrary: ed) (simp_all add: tag_add_def)

lemma cache_tag_matches: "regex_cache (tag_matches tag ms ed) = regex_cache ed"
  unfolding tag_matches_def by (induction ms arbitrary: ed) (simp_all add: tag_add_def)

lemma cache_tag_groups: "regex_cache (tag_groups tag ms ed) = regex_cache ed"
  unfolding tag_groups_def by (induction ms arbitrary: ed) (simp_all add: tag_add_def)

lemmas rule_simps =
  get_compiled_regex_ok rule_table_lookup cache_ok_upd tags_tag_matches tags_tag_groups
  cache_tag_matches cache_tag_groups whole_spans_def group_spans_def Let_def

lemma highlight_python_ok:
  assumes "cache_ok (regex_cache ed)"
  shows "tags (highlight_python content ed) = tags ed @ py_spans content"
    and "cache_ok (regex_cache (highlight_python content ed))"
  using assms by (simp_all add: highlight_python_def py_spans_def rule_simps)

lemma highlight_javascript_ok:
  assumes "cache_ok (regex_cache ed)"
  shows "tags (highlight_javascript content ed) = tags ed @ js_spans content"
    and "cache_ok (regex_cache (highlight_javascript content ed))"
  using assms by (simp_all add: highlight_javascript_def js_spans_def rule_simps)

lemma highlight_c_like_ok:
  assumes "cache_ok (regex_cache ed)"
  shows "tags (highlight_c_like content ed) = tags ed @ c_spans content"
    and "cache_ok (regex_cache (highlight_c_like content ed))"
  using assms by (simp_all add: highlight_c_like_def c_spans_def rule_simps)

lemma highlight_html_ok:
  assumes "cache_ok (regex_cache ed)"
  shows "tags (highlight_html content ed) = tags ed @ html_spans content"
    and "cache_ok (regex_cache (highlight_html content ed))"
  using assms by (simp_all add: highlight_html_def html_spans_def rule_simps)

lemma split_on_nonempty: "split_on c s \<noteq> []"
  by (induction s) (simp_all split: list.splits)

lemma file_ext_Inr: "\<exists>ext. file_ext f = Inr ext"
proof -
  obtain w ws where "split_on CHR ''.'' f = w # ws"
    using split_on_nonempty[of "CHR ''.''" f] by (cases "split_on CHR ''.'' f") auto
  then have "\<exists>w. py_index (split_on CHR ''.'' f) (- 1) = Inr w"
    by (simp add: py_index_def)
  then show ?thesis by (auto simp: file_ext_def)
qed

lemma tags_remove_all: "tags (fold tag_remove syntax_tags ed) = untagged (tags ed)"
  by (simp add: syntax_tags_def untagged_def tag_remove_def conj_commute conj_left_commute)

lemma cache_remove_all: "regex_cache (fold tag_remove syntax_tags ed) = regex_cache ed"
  by (simp add: syntax_tags_def tag_remove_def)

lemma highlight_syntax_none:
  "current_file = None \<or> current_file = Some [] \<Longrightarrow> highlight_syntax current_file content ed = Inr ed"
  by (auto simp: highlight_syntax_def)

lemma highlight_syntax_ok:
  assumes ok: "cache_ok (regex_cache ed)" and f: "f \<noteq> []" and ext: "file_ext f = Inr ext"
  shows "\<exists>ed'. highlight_syntax (Some f) content ed = Inr ed'
              \<and> tags ed' = untagged (tags ed) @ ext_spans ext content
              \<and> cache_ok (regex_cache ed')"
proof -
  let ?ed = "fold tag_remove syntax_tags ed"
  have ok': "cache_ok (regex_cache ?ed)" using ok by (simp add: cache_remove_all)
  let ?r = "if ext = ''py'' then highlight_python content ?ed
            else if ext \<in> set [''js'', ''ts'', ''jsx'', ''tsx''] then highlight_javascript content ?ed
            else if ext \<in> set [''java'', ''c'', ''cpp'', ''cs'', ''h''] then highlight_c_like content ?ed
            else if ext = ''html'' then highlight_html content ?ed
            else ?ed"
  have run: "highlight_syntax (Some f) content ed = Inr ?r"
    using f ext by (simp only: highlight_syntax_def option.case sum.case if_False Let_def)
  have t: "tags ?r = untagged (tags ed) @ ext_spans ext content"
    unfolding ext_spans_def
    using highlight_python_ok(1)[OF ok'] highlight_javascript_ok(1)[OF ok']
      highlight_c_like_ok(1)[OF ok'] highlight_html_ok(1)[OF ok'] tags_remove_all[of ed]
    by (simp only: if_distrib[of tags] append_Nil2 split: if_split)  simp
  have c: "cache_ok (regex_cache ?r)"
    using highlight_python_ok(2)[OF ok'] highlight_javascript_ok(2)[OF ok']
      highlight_c_like_ok(2)[OF ok'] highlight_html_ok(2)[OF ok'] ok'
    by (simp only: split: if_split) simp
  show ?thesis using run t c by blast
qed

lemma consumes_rules:
  "consumes py_keywords" "consumes py_builtins" "consumes py_strings" "consumes py_comments"
  "consumes numbers" "consumes js_keywords" "consumes js_strings" "consumes slash_comments"
  "consumes c_keywords" "consumes c_strings" "consumes html_tags" "consumes html_comments"
  "consumes html_strings"
  by (simp_all add: py_keywords_def py_builtins_def py_strings_def py_comments_def numbers_def
      js_keywords_def js_strings_def slash_comments_def c_keywords_def c_strings_def html_tags_def
      html_comments_def html_strings_def word_list_def quoted_def delimited_def Plus_def Opt_def)

lemma ends_in_group_rules: "ends_in_group py_functions" "ends_in_group py_classes"
  by (simp_all add: py_functions_def py_classes_def name_after_def Plus_def)

lemma whole_spans_ok: "consumes r \<Longrightarrow> sp \<in> set (whole_spans tag r content) \<Longrightarrow> span_ok content sp"
  using finditer_whole[of _ r content] by (auto simp: whole_spans_def span_ok_def)

lemma group_spans_ok: "ends_in_group r \<Longrightarrow> sp \<in> set (group_spans tag r content) \<Longrightarrow> span_ok content sp"
  using finditer_group[of _ r content] by (auto simp: group_spans_def span_ok_def)

lemma py_spans_ok: "sp \<in> set (py_spans content) \<Longrightarrow> span_ok content sp"
  unfolding py_spans_def set_append Un_iff
  using whole_spans_ok[of _ sp _ content] group_spans_ok[of _ sp _ content]
    consumes_rules ends_in_group_rules
  by blast

lemma js_spans_ok: "sp \<in> set (js_spans content) \<Longrightarrow> span_ok content sp"
  unfolding js_spans_def set_append Un_iff
  using whole_spans_ok[of _ sp _ content] consumes_rules by blast

lemma c_spans_ok: "sp \<in> set (c_spans content) \<Longrightarrow> span_ok content sp"
  unfolding c_spans_def set_append Un_iff
  using whole_spans_ok[of _ sp _ content] consumes_rules by blast

lemma html_spans_ok: "sp \<in> set (html_spans content) \<Longrightarrow> span_ok content sp"
  unfolding html_spans_def set_append Un_iff
  using whole_spans_ok[of _ sp _ content] consumes_rules by blast

lemma ext_spans_cases:
  "ext_spans ext content = py_spans content \<or> ext_spans ext content = js_spans content
   \<or> ext_spans ext content = c_spans content \<or> ext_spans ext content = html_spans content
   \<or> ext_spans ext content = []"
  by (simp add: ext_spans_def)

lemma ext_spans_ok: "sp \<in> set (ext_spans ext content) \<Longrightarrow> span_ok content sp"
  using ext_spans_cases[of ext content] py_spans_ok[of sp content] js_spans_ok[of sp content]
    c_spans_ok[of sp content] html_spans_ok[of sp content]
  by auto

lemma fst_whole_spans: "sp \<in> set (whole_spans tag r content) \<Longrightarrow> fst sp = tag"
  by (auto simp: whole_spans_def)

lemma fst_group_spans: "sp \<in> set (group_spans tag r content) \<Longrightarrow> fst sp = tag"
  by (auto simp: group_spans_def)

lemma ext_spans_syntax: "sp \<in> set (ext_spans ext content) \<Longrightarrow> fst sp \<in> set syntax_tags"
proof -
  assume a: "sp \<in> set (ext_spans ext content)"
  have "fst sp \<in> {''keyword'', ''builtin'', ''string'', ''comment'', ''number'', ''function'', ''class''}"
    using a ext_spans_cases[of ext content] fst_whole_spans[of sp _ _ content]
      fst_group_spans[of sp _ _ content]
    unfolding py_spans_def js_spans_def c_spans_def html_spans_def
    by (elim disjE) (simp_all only: set_append Un_iff insert_iff list.set empty_iff, blast+)
  then show ?thesis unfolding syntax_tags_def by auto
qed

lemma untagged_ext_spans: "untagged (ext_spans ext content) = []"
  using ext_spans_syntax by (auto simp: untagged_def filter_empty_conv)

lemma untagged_idem: "untagged (untagged sps) = untagged sps"
  by (simp add: untagged_def)

lemma untagged_append: "untagged (xs @ ys) = untagged xs @ untagged ys"
  by (simp add: untagged_def)

lemmas rx_eval =
  finditer_def finditer_from.simps word_boundary_def word_at_def at_eol_def is_word_def
  is_space_def is_digit_def between_def code_point_def newline_def dquote_def squote_def
  backslash_def backtick_def dot_def dot_all_def Plus_def Opt_def Let_def
  word_list_def quoted_def delimited_def name_after_def
  m_start_def m_end_def m_start1_def m_end1_def whole_spans_def group_spans_def

lemmas pattern_defs =
  py_keywords_def py_builtins_def py_strings_def py_comments_def numbers_def py_functions_def
  py_classes_def js_keywords_def js_strings_def slash_comments_def c_keywords_def c_strings_def
  html_tags_def html_comments_def html_strings_def

text \<open>
  Claim C1. Every span the highlight engine emits lies inside the text and is not empty:
  \<open>0 \<le> start < end \<le> len(text)\<close>. This holds for each of the four profiles and for
  \<open>highlight_syntax\<close> with any file name, started on a widget without tagged ranges (so
  that every range found afterwards was emitted by the call) and with a regex cache
  whose entries are the patterns of their keys.
\<close>

theorem highlight_spans_in_bounds:
  assumes "cache_ok (regex_cache ed)" and "tags ed = []"
  shows "(\<forall>sp \<in> set (tags (highlight_python content ed)). span_ok content sp)
       \<and> (\<forall>sp \<in> set (tags (highlight_javascript content ed)). span_ok content sp)
       \<and> (\<forall>sp \<in> set (tags (highlight_c_like content ed)). span_ok content sp)
       \<and> (\<forall>sp \<in> set (tags (highlight_html content ed)). span_ok content sp)
       \<and> (\<exists>ed'. highlight_syntax current_file content ed = Inr ed'
                \<and> (\<forall>sp \<in> set (tags ed'). span_ok content sp))"
proof (intro conjI)
  show "\<forall>sp \<in> set (tags (highlight_python content ed)). span_ok content sp"
    using py_spans_ok by (simp add: highlight_python_ok(1)[OF assms(1)] assms(2))
  show "\<forall>sp \<in> set (tags (highlight_javascript content ed)). span_ok content sp"
    using js_spans_ok by (simp add: highlight_javascript_ok(1)[OF assms(1)] assms(2))
  show "\<forall>sp \<in> set (tags (highlight_c_like content ed)). span_ok content sp"
    using c_spans_ok by (simp add: highlight_c_like_ok(1)[OF assms(1)] assms(2))
  show "\<forall>sp \<in> set (tags (highlight_html content ed)). span_ok content sp"
    using html_spans_ok by (simp add: highlight_html_ok(1)[OF assms(1)] assms(2))
  show "\<exists>ed'. highlight_syntax current_file content ed = Inr ed'
              \<and> (\<forall>sp \<in> set (tags ed'). span_ok content sp)"
  proof (cases "current_file = None \<or> current_file = Some []")
    case True
    then show ?thesis using highlight_syntax_none[OF True] assms(2) by simp
  next
    case False
    then obtain f where f: "current_file = Some f" "f \<noteq> []" by auto
    obtain ext where ext: "file_ext f = Inr ext" using file_ext_Inr by blast
    from highlight_syntax_ok[OF assms(1) f(2) ext, of content]
    obtain ed' where "highlight_syntax (Some f) content ed = Inr ed'"
      "tags ed' = untagged (tags ed) @ ext_spans ext content" by blast
    then show ?thesis using f(1) assms(2) ext_spans_ok by (auto simp: untagged_def)
  qed
qed

theorem highlight_spans_in_bounds_witness:
  "cache_ok (regex_cache \<lparr>tags = [], regex_cache = Map.empty\<rparr>)
   \<and> tags \<lparr>tags = [], regex_cache = Map.empty\<rparr> = []
   \<and> tags (highlight_python ''x = 12 # c'' \<lparr>tags = [], regex_cache = Map.empty\<rparr>)
       = [(''comment'', 7, 10), (''number'', 4, 6)]
   \<and> span_ok ''x = 12 # c'' (''comment'', 7, 10) \<and> span_ok ''x = 12 # c'' (''number'', 4, 6)"
proof -
  let ?ed = "\<lparr>tags = [], regex_cache = Map.empty\<rparr>"
  have ok: "cache_ok (regex_cache ?ed)" by (simp add: cache_ok_empty)
  have e: "tags ?ed = []" by simp
  have "py_spans ''x = 12 # c'' = [(''comment'', 7, 10), (''number'', 4, 6)]"
    by (simp add: py_spans_def rx_eval pattern_defs)
  then have t: "tags (highlight_python ''x = 12 # c'' ?ed) = [(''comment'', 7, 10), (''number'', 4, 6)]"
    using highlight_python_ok(1)[OF ok] by simp
  show ?thesis
    using highlight_spans_in_bounds[OF ok e, of "''x = 12 # c''" None] ok t by simp
qed

text \<open>
  Claim C5. With a current file whose extension is none of py, js, ts, jsx, tsx, java, c,
  cpp, cs, h, html, \<open>highlight_syntax\<close> raises nothing, removes every range of the eight
  syntax tags and adds none: the span set is empty, whatever the text.
\<close>

theorem unknown_extension_no_spans:
  assumes "f \<noteq> []"
  shows "\<exists>ext. file_ext f = Inr ext
          \<and> (ext \<notin> set [''py'', ''js'', ''ts'', ''jsx'', ''tsx'', ''java'', ''c'', ''cpp'', ''cs'', ''h'', ''html'']
               \<longrightarrow> highlight_syntax (Some f) content ed = Inr (ed\<lparr>tags := untagged (tags ed)\<rparr>)
                 \<and> (\<forall>sp \<in> set (untagged (tags ed)). fst sp \<notin> set syntax_tags))"
proof -
  obtain ext where ext: "file_ext f = Inr ext" using file_ext_Inr by blast
  have r: "fold tag_remove syntax_tags ed = ed\<lparr>tags := untagged (tags ed)\<rparr>"
    using tags_remove_all[of ed] cache_remove_all[of ed] by (cases ed) (simp add: editor.defs)
  have "ext \<notin> set [''py'', ''js'', ''ts'', ''jsx'', ''tsx'', ''java'', ''c'', ''cpp'', ''cs'', ''h'', ''html'']
        \<Longrightarrow> highlight_syntax (Some f) content ed = Inr (ed\<lparr>tags := untagged (tags ed)\<rparr>)"
    using assms ext r by (simp add: highlight_syntax_def Let_def)
  moreover have "\<forall>sp \<in> set (untagged (tags ed)). fst sp \<notin> set syntax_tags"
    by (simp add: untagged_def)
  ultimately show ?thesis using ext by blast
qed

theorem unknown_extension_no_spans_witness:
  "''notes.TXT'' \<noteq> [] \<and> file_ext ''notes.TXT'' = Inr ''txt''
   \<and> ''txt'' \<notin> set [''py'', ''js'', ''ts'', ''jsx'', ''tsx'', ''java'', ''c'', ''cpp'', ''cs'', ''h'', ''html'']
   \<and> highlight_syntax (Some ''notes.TXT'') ''def f(): pass''
        \<lparr>tags = [(''keyword'', 0, 3), (''match_bracket'', 5, 6)], regex_cache = Map.empty\<rparr>
      = Inr \<lparr>tags = [(''match_bracket'', 5, 6)], regex_cache = Map.empty\<rparr>"
proof -
  have e: "file_ext ''notes.TXT'' = Inr ''txt''"
    by code_simp
  have u: "untagged [(''keyword'', 0, 3), (''match_bracket'', 5, 6)] = [(''match_bracket'', 5::int, 6::int)]"
    by (simp add: untagged_def syntax_tags_def)
  show ?thesis
    using unknown_extension_no_spans[of "''notes.TXT''" "''def f(): pass''"
        "\<lparr>tags = [(''keyword'', 0, 3), (''match_bracket'', 5, 6)], regex_cache = Map.empty\<rparr>"] e u
    by simp
qed

text \<open>
  Claim C9. Highlighting is idempotent and does not depend on the state of the regex
  cache: a second call on the unchanged text leaves the same tagged ranges as the first,
  and a call with an emptied cache leaves the same ranges as a call with any cache
  that earlier calls have filled.
\<close>

theorem highlight_idempotent:
  assumes "cache_ok (regex_cache ed)"
  shows "\<exists>ed1 ed2 cold.
           highlight_syntax current_file content ed = Inr ed1
         \<and> highlight_syntax current_file content ed1 = Inr ed2
         \<and> highlight_syntax current_file content (ed\<lparr>regex_cache := Map.empty\<rparr>) = Inr cold
         \<and> tags ed2 = tags ed1 \<and> tags cold = tags ed1 \<and> cache_ok (regex_cache ed1)"
proof (cases "current_file = None \<or> current_file = Some []")
  case True
  show ?thesis
    using highlight_syntax_none[OF True, of content ed]
      highlight_syntax_none[OF True, of content "ed\<lparr>regex_cache := Map.empty\<rparr>"] assms
    by simp
next
  case False
  then obtain f where f: "current_file = Some f" "f \<noteq> []" by auto
  obtain ext where ext: "file_ext f = Inr ext" using file_ext_Inr by blast
  from highlight_syntax_ok[OF assms f(2) ext, of content]
  obtain ed1 where 1: "highlight_syntax (Some f) content ed = Inr ed1"
    "tags ed1 = untagged (tags ed) @ ext_spans ext content" "cache_ok (regex_cache ed1)" by blast
  from highlight_syntax_ok[OF 1(3) f(2) ext, of content]
  obtain ed2 where 2: "highlight_syntax (Some f) content ed1 = Inr ed2"
    "tags ed2 = untagged (tags ed1) @ ext_spans ext content" by blast
  have "cache_ok (regex_cache (ed\<lparr>regex_cache := Map.empty\<rparr>))" by (simp add: cache_ok_empty)
  from highlight_syntax_ok[OF this f(2) ext, of content]
  obtain cold where 3: "highlight_syntax (Some f) content (ed\<lparr>regex_cache := Map.empty\<rparr>) = Inr cold"
    "tags cold = untagged (tags ed) @ ext_spans ext content" by auto
  have "tags ed2 = tags ed1"
    by (simp add: 1(2) 2(2) untagged_append untagged_idem untagged_ext_spans)
  then show ?thesis using 1 2(1) 3 f(1) by simp
qed

theorem highlight_idempotent_witness:
  "cache_ok (regex_cache (highlight_python ''import os'' \<lparr>tags = [], regex_cache = Map.empty\<rparr>))
   \<and> (\<exists>ed1 ed2 cold.
        highlight_syntax (Some ''a.py'') ''x = 1''
          (highlight_python ''import os'' \<lparr>tags = [], regex_cache = Map.empty\<rparr>) = Inr ed1
      \<and> highlight_syntax (Some ''a.py'') ''x = 1'' ed1 = Inr ed2
      \<and> highlight_syntax (Some ''a.py'') ''x = 1''
          ((highlight_python ''import os'' \<lparr>tags = [], regex_cache = Map.empty\<rparr>)\<lparr>regex_cache := Map.empty\<rparr>)
          = Inr cold
      \<and> tags ed2 = tags ed1 \<and> tags cold = tags ed1)"
proof -
  let ?warm = "highlight_python ''import os'' \<lparr>tags = [], regex_cache = Map.empty\<rparr>"
  have ok: "cache_ok (regex_cache ?warm)"
    by (rule highlight_python_ok(2)) (simp add: cache_ok_empty)
  show ?thesis
    using highlight_idempotent[OF ok, of "Some ''a.py''" "''x = 1''"] ok by blast
qed

lemma py_spans_comment_line:
  "py_spans ''# def foo():'' = [(''keyword'', 2, 5), (''comment'', 0, 12), (''function'', 6, 9)]"
  by (simp add: py_spans_def rx_eval pattern_defs)

lemma tags_py_comment_line:
  "tags (highlight_python ''# def foo():'' \<lparr>tags = [], regex_cache = Map.empty\<rparr>)
     = [(''keyword'', 2, 5), (''comment'', 0, 12), (''function'', 6, 9)]"
  using highlight_python_ok(1)[of "\<lparr>tags = [], regex_cache = Map.empty\<rparr>" "''# def foo():''"]
  by (simp add: cache_ok_empty py_spans_comment_line)

text \<open>
  Claim C3, as stated, fails: for the text \<open># def foo():\<close> the Python profile tags \<open>def\<close>
  as keyword and \<open>foo\<close> as function besides the comment over the whole line, and \<open>foo\<close>
  is displayed as a function name.
\<close>

theorem comment_masking_counterexample:
  "(''keyword'', 2, 5) \<in> set (tags (highlight_python ''# def foo():'' \<lparr>tags = [], regex_cache = Map.empty\<rparr>))
   \<and> (''function'', 6, 9) \<in> set (tags (highlight_python ''# def foo():'' \<lparr>tags = [], regex_cache = Map.empty\<rparr>))
   \<and> shown_tag (tags (highlight_python ''# def foo():'' \<lparr>tags = [], regex_cache = Map.empty\<rparr>)) 6
       = Some ''function''"
  by (simp add: tags_py_comment_line shown_tag_def covering_def setup_syntax_highlighting_def)

text \<open>
  Claim C3, amended. For the text \<open># def foo():\<close> the Python profile emits three spans:
  keyword over \<open>def\<close>, comment over the whole line, function over \<open>foo\<close>; the engine
  masks nothing. In the display the comment tag outranks the keyword tag, so \<open>def\<close> is
  shown as comment, and the function tag outranks the comment tag, so \<open>foo\<close> is shown as
  a function name.
\<close>

theorem comment_line_spans:
  "tags (highlight_python ''# def foo():'' \<lparr>tags = [], regex_cache = Map.empty\<rparr>)
     = [(''keyword'', 2, 5), (''comment'', 0, 12), (''function'', 6, 9)]
   \<and> map (shown_tag (tags (highlight_python ''# def foo():'' \<lparr>tags = [], regex_cache = Map.empty\<rparr>)))
         [0, 1, 2, 3, 4, 5, 6, 7, 8, 9, 10, 11]
     = [Some ''comment'', Some ''comment'', Some ''comment'', Some ''comment'', Some ''comment'',
        Some ''comment'', Some ''function'', Some ''function'', Some ''function'',
        Some ''comment'', Some ''comment'', Some ''comment'']"
  by (simp add: tags_py_comment_line shown_tag_def covering_def setup_syntax_highlighting_def)

lemma js_spans_block: "js_spans (''/*a'' @ [newline] @ ''b*/'') = []"
  by (simp add: js_spans_def rx_eval pattern_defs)

lemma js_spans_backtick: "js_spans ([backtick] @ ''a'' @ [newline] @ ''b'' @ [backtick]) = []"
  by (simp add: js_spans_def rx_eval pattern_defs)

lemma c_spans_block: "c_spans (''/*a'' @ [newline] @ ''b*/'') = []"
  by (simp add: c_spans_def rx_eval pattern_defs)

lemma py_spans_triple:
  "py_spans ([dquote, dquote, dquote] @ ''a'' @ [newline] @ ''b'' @ [dquote, dquote, dquote])
     = [(''string'', 0, 9)]"
  by (simp add: py_spans_def rx_eval pattern_defs)

lemma html_spans_comment: "html_spans (''<!--a'' @ [newline] @ ''b-->'') = [(''comment'', 0, 10)]"
  by (simp add: html_spans_def rx_eval pattern_defs)

text \<open>
  Claim C4. A construct that spans lines gives one span over the whole construct in the
  Python profile (triple-quoted string) and in the HTML profile (comment), whose rules
  are matched with \<open>re.DOTALL\<close>. The JavaScript and C-like rules are compiled without
  that flag: a block comment or a backtick string with a newline inside gives no span.
\<close>

theorem multiline_constructs:
  "tags (highlight_python ([dquote, dquote, dquote] @ ''a'' @ [newline] @ ''b'' @ [dquote, dquote, dquote])
          \<lparr>tags = [], regex_cache = Map.empty\<rparr>) = [(''string'', 0, 9)]
   \<and> tags (highlight_html (''<!--a'' @ [newline] @ ''b-->'') \<lparr>tags = [], regex_cache = Map.empty\<rparr>)
       = [(''comment'', 0, 10)]
   \<and> tags (highlight_javascript (''/*a'' @ [newline] @ ''b*/'') \<lparr>tags = [], regex_cache = Map.empty\<rparr>) = []
   \<and> tags (highlight_javascript ([backtick] @ ''a'' @ [newline] @ ''b'' @ [backtick])
          \<lparr>tags = [], regex_cache = Map.empty\<rparr>) = []
   \<and> tags (highlight_c_like (''/*a'' @ [newline] @ ''b*/'') \<lparr>tags = [], regex_cache = Map.empty\<rparr>) = []"
proof -
  let ?ed = "\<lparr>tags = [], regex_cache = Map.empty\<rparr>"
  have ok: "cache_ok (regex_cache ?ed)" by (simp add: cache_ok_empty)
  have e: "tags ?ed = []" by simp
  show ?thesis
    unfolding highlight_python_ok(1)[OF ok] highlight_html_ok(1)[OF ok]
      highlight_javascript_ok(1)[OF ok] highlight_c_like_ok(1)[OF ok] e append_Nil
    by (intro conjI py_spans_triple html_spans_comment js_spans_block js_spans_backtick
        c_spans_block)
qed

lemma length_split_on: "length (split_on c s) = Suc (count_list s c)"
  by (induction s) (auto split: list.splits)

lemma split_on_append_sep: "split_on c (xs @ c # ys) = split_on c xs @ split_on c ys"
  by (induction xs) (auto split: list.splits simp: split_on_nonempty)

lemma last_split_on_snoc: "last (split_on c (s @ [c])) = []"
  by (simp add: split_on_append_sep)

lemma lazy_dot_run:
  assumes "s' \<in> set (star_lazy (rmatch (Sym p) t) n s)"
  shows "fst s \<le> fst s' \<and> (\<forall>k. fst s \<le> k \<and> k < fst s' \<longrightarrow> p (t ! k))"
proof (rule star_lazy_inv[of "\<lambda>x. fst s \<le> fst x \<and> (\<forall>k. fst s \<le> k \<and> k < fst x \<longrightarrow> p (t ! k))"
        "rmatch (Sym p) t" s s' n])
  fix x x'
  assume P: "fst s \<le> fst x \<and> (\<forall>k. fst s \<le> k \<and> k < fst x \<longrightarrow> p (t ! k))"
    and x': "x' \<in> set (rmatch (Sym p) t x)"
  from x' have "fst x' = Suc (fst x)" "p (t ! fst x)" by (auto split: if_splits)
  then show "fst s \<le> fst x' \<and> (\<forall>k. fst s \<le> k \<and> k < fst x' \<longrightarrow> p (t ! k))"
    using P by (auto simp: less_Suc_eq)
next
  show "fst s \<le> fst s \<and> (\<forall>k. fst s \<le> k \<and> k < fst s \<longrightarrow> p (t ! k))" by auto
next
  show "s' \<in> set (star_lazy (rmatch (Sym p) t) n s)" by (rule assms)
qed

lemma Cat_Lit_start:
  assumes "s' \<in> set (rmatch (Cat (Lit w) r) t s)"
  shows "take (length w) (drop (fst s) t) = w \<and> s' \<in> set (rmatch r t (fst s + length w, snd s))"
  using assms by (auto split: if_splits)

lemma line_comment_match:
  assumes "s' \<in> set (rmatch (Cat (Lit w) (Cat (LazyStar (Sym dot)) Eol)) t s)"
  shows "at_eol t (fst s') \<and> take (length w) (drop (fst s) t) = w \<and> fst s + length w \<le> fst s'
         \<and> (\<forall>k. fst s + length w \<le> k \<and> k < fst s' \<longrightarrow> t ! k \<noteq> newline)"
proof -
  let ?s1 = "(fst s + length w, snd s)"
  from Cat_Lit_start[OF assms]
  have w: "take (length w) (drop (fst s) t) = w"
    and r: "s' \<in> set (rmatch (Cat (LazyStar (Sym dot)) Eol) t ?s1)" by simp_all
  from r obtain m where m: "m \<in> set (star_lazy (rmatch (Sym dot) t) (length t - fst ?s1) ?s1)"
    and e: "s' \<in> set (rmatch Eol t m)" by auto
  from e have s': "s' = m" "at_eol t (fst m)" by (auto split: if_splits)
  from lazy_dot_run[OF m] have "fst ?s1 \<le> fst m" "\<forall>k. fst ?s1 \<le> k \<and> k < fst m \<longrightarrow> dot (t ! k)"
    by simp_all
  then show ?thesis using w s' by (simp add: dot_def)
qed

lemma count_newline_slice:
  assumes "s \<le> e" "e \<le> length t" "\<forall>k. s \<le> k \<and> k < e \<longrightarrow> t ! k \<noteq> c"
  shows "count_list (take e t) c = count_list (take s t) c"
proof -
  have "take e t = take s t @ take (e - s) (drop s t)"
    using assms(1) by (metis add_diff_inverse_nat not_less take_add)
  moreover have "c \<notin> set (take (e - s) (drop s t))"
  proof
    assume "c \<in> set (take (e - s) (drop s t))"
    then obtain i where i: "i < length (take (e - s) (drop s t))" "take (e - s) (drop s t) ! i = c"
      by (auto simp: in_set_conv_nth)
    then have "i < e - s" "t ! (s + i) = c" using assms(2) by simp_all
    then show False using assms(3) by (metis add_less_cancel_left le_add1 le_add_diff_inverse assms(1))
  qed
  ultimately show ?thesis by simp
qed

lemma span_at_text_end:
  assumes eol: "at_eol t e" and lt: "s < e" and el: "e \<le> length t"
    and run: "\<forall>k. s \<le> k \<and> k < e \<longrightarrow> t ! k \<noteq> newline"
  shows "at_text_end t (tag, int s, int e)"
proof -
  have se: "s \<le> e" using lt by simp
  have cs: "count_list (take e t) newline = count_list (take s t) newline"
    by (rule count_newline_slice[OF se el run])
  from eol consider "e = length t" | "Suc e = length t" "t ! e = newline"
    by (auto simp: at_eol_def)
  then show ?thesis
  proof cases
    case 1
    have nl: "\<not> (t \<noteq> [] \<and> last t = newline)"
    proof
      assume a: "t \<noteq> [] \<and> last t = newline"
      then have "t ! (length t - 1) = newline" using last_conv_nth[of t] by auto
      moreover have "s \<le> length t - 1 \<and> length t - 1 < e" using 1 lt by arith
      ultimately show False using run by blast
    qed
    have "count_list t newline = count_list (take s t) newline" using cs 1 by simp
    then show ?thesis using 1 nl
      by (simp add: at_text_end_def ends_text_def line_index_def line_count_def length_split_on)
  next
    case 2
    have "take (Suc e) t = take e t @ [t ! e]"
      by (rule take_Suc_conv_app_nth) (use 2(1) in arith)
    moreover have "take (Suc e) t = t" using 2(1) by simp
    ultimately have t: "t = take e t @ [newline]" using 2(2) by simp
    have ne: "t \<noteq> []" using 2(1) by auto
    have la: "last t = newline" by (subst t) simp
    have "count_list t newline = Suc (count_list (take e t) newline)"
      by (subst t) simp
    then have c: "count_list t newline = Suc (count_list (take s t) newline)" using cs by simp
    have l: "last (split_on newline t) = []"
      by (subst t) (rule last_split_on_snoc)
    show ?thesis using 2(1) ne la c l
      by (auto simp: at_text_end_def ends_text_def line_index_def line_count_def length_split_on)
  qed
qed

lemma line_comment_span:
  assumes "m \<in> set (finditer_from r t p adv)"
    and "snd m \<in> set (rmatch (Cat (Lit w) (Cat (LazyStar (Sym dot)) Eol)) t (fst m, None))"
    and "newline \<notin> set w" and "w \<noteq> []"
  shows "at_text_end t (tag, m_start m, m_end m)"
proof -
  let ?s = "fst m" and ?e = "fst (snd m)"
  from line_comment_match[OF assms(2)]
  have eol: "at_eol t ?e" and w: "take (length w) (drop ?s t) = w" and se: "?s + length w \<le> ?e"
    and run: "\<forall>k. ?s + length w \<le> k \<and> k < ?e \<longrightarrow> t ! k \<noteq> newline" by simp_all
  have sl: "?s \<le> length t" using finditer_from_match[OF assms(1)] by simp
  have el: "?e \<le> length t" using rmatch_le[OF _ assms(2)] sl by simp
  have "\<forall>k. ?s \<le> k \<and> k < ?e \<longrightarrow> t ! k \<noteq> newline"
  proof (intro allI impI)
    fix k assume k: "?s \<le> k \<and> k < ?e"
    show "t ! k \<noteq> newline"
    proof (cases "k < ?s + length w")
      case False
      then show ?thesis using run k by simp
    next
      case True
      then have kw: "k - ?s < length w" using k by arith
      have "w ! (k - ?s) = take (length w) (drop ?s t) ! (k - ?s)" using w by simp
      also have "\<dots> = drop ?s t ! (k - ?s)" using kw by simp
      also have "\<dots> = t ! (?s + (k - ?s))" using sl by simp
      also have "\<dots> = t ! k" using k by simp
      finally have "t ! k = w ! (k - ?s)" by simp
      moreover have "w ! (k - ?s) \<in> set w" using kw by simp
      ultimately have "t ! k \<in> set w" by simp
      then show ?thesis using assms(3) by auto
    qed
  qed
  moreover have "?s < ?e" using se w assms(4) by (cases w) auto
  ultimately show ?thesis
    using span_at_text_end[OF eol _ el, of ?s tag] by (simp add: m_start_def m_end_def)
qed

lemma py_comment_spans_at_end:
  assumes "sp \<in> set (whole_spans ''comment'' py_comments content)"
  shows "at_text_end content sp"
proof -
  from assms obtain m where m: "m \<in> set (finditer py_comments content)"
    and sp: "sp = (''comment'', m_start m, m_end m)" by (auto simp: whole_spans_def)
  have f: "m \<in> set (finditer_from py_comments content 0 False)" using m by (simp add: finditer_def)
  have r: "snd m \<in> set (rmatch py_comments content (fst m, None))"
    using finditer_from_match[OF f] by simp
  show ?thesis unfolding sp
    by (rule line_comment_span[OF f, of "''#''"]) (use r in \<open>simp_all add: py_comments_def newline_def\<close>)
qed

lemma slash_comment_spans_at_end:
  assumes "sp \<in> set (whole_spans ''comment'' slash_comments content)"
    and "starts_with_slashes content sp"
  shows "at_text_end content sp"
proof -
  from assms(1) obtain m where m: "m \<in> set (finditer slash_comments content)"
    and sp: "sp = (''comment'', m_start m, m_end m)" by (auto simp: whole_spans_def)
  have f: "m \<in> set (finditer_from slash_comments content 0 False)" using m by (simp add: finditer_def)
  have r: "snd m \<in> set (rmatch slash_comments content (fst m, None))"
    using finditer_from_match[OF f] by simp
  have sl: "take 2 (drop (fst m) content) = ''//''"
    using assms(2) by (simp add: starts_with_slashes_def sp m_start_def)
  have "snd m \<notin> set (rmatch (delimited ''/*'' dot ''*/'') content (fst m, None))"
  proof
    assume "snd m \<in> set (rmatch (delimited ''/*'' dot ''*/'') content (fst m, None))"
    then have "take (length ''/*'') (drop (fst m) content) = ''/*''"
      unfolding delimited_def using Cat_Lit_start[of "snd m" "''/*''" _ content "(fst m, None)"] by simp
    then show False using sl by (simp add: numeral_2_eq_2)
  qed
  then have "snd m \<in> set (rmatch (Cat (Lit ''//'') (Cat (LazyStar (Sym dot)) Eol)) content (fst m, None))"
    using r by (simp add: slash_comments_def)
  then show ?thesis unfolding sp
    by (intro line_comment_span[OF f, of "''//''"]) (simp_all add: newline_def)
qed

lemma take_drop_nth:
  assumes "take (length w) (drop i t) = w" and "j < length w"
  shows "t ! (i + j) = w ! j \<and> i + j < length t"
proof -
  have il: "i \<le> length t"
  proof (rule ccontr)
    assume "\<not> i \<le> length t"
    then have "drop i t = []" by simp
    then have "w = []" using assms(1) by simp
    then show False using assms(2) by simp
  qed
  have fit: "i + length w \<le> length t" by (rule Lit_fits[OF assms(1) il])
  have "w ! j = take (length w) (drop i t) ! j" using assms(1) by simp
  also have "\<dots> = drop i t ! j" using assms(2) by simp
  also have "\<dots> = t ! (i + j)" using il by simp
  finally show ?thesis using fit assms(2) by simp
qed

lemma no_char_in_slice:
  assumes "e \<le> length t" and "\<forall>k. s \<le> k \<and> k < e \<longrightarrow> t ! k \<noteq> c"
  shows "c \<notin> set (take (e - s) (drop s t))"
proof
  assume "c \<in> set (take (e - s) (drop s t))"
  then obtain i where i: "i < length (take (e - s) (drop s t))" "take (e - s) (drop s t) ! i = c"
    by (auto simp: in_set_conv_nth)
  then have "i < e - s" "t ! (s + i) = c" using assms(1) by simp_all
  moreover have "s \<le> s + i \<and> s + i < e" using \<open>i < e - s\<close> by arith
  ultimately show False using assms(2) by blast
qed

lemma delimited_match:
  assumes "s' \<in> set (rmatch (delimited l dot r) t s)"
  shows "take (length l) (drop (fst s) t) = l
         \<and> (\<exists>m. fst s + length l \<le> m
                \<and> (\<forall>k. fst s + length l \<le> k \<and> k < m \<longrightarrow> t ! k \<noteq> newline)
                \<and> take (length r) (drop m t) = r \<and> fst s' = m + length r)"
proof -
  let ?s1 = "(fst s + length l, snd s)"
  from Cat_Lit_start[OF assms[unfolded delimited_def]]
  have l: "take (length l) (drop (fst s) t) = l"
    and rest: "s' \<in> set (rmatch (Cat (LazyStar (Sym dot)) (Lit r)) t ?s1)" by simp_all
  from rest obtain m where m: "m \<in> set (star_lazy (rmatch (Sym dot) t) (length t - fst ?s1) ?s1)"
    and e: "s' \<in> set (rmatch (Lit r) t m)" by auto
  from e have r: "take (length r) (drop (fst m) t) = r" "fst s' = fst m + length r"
    by (auto split: if_splits)
  from lazy_dot_run[OF m] have "fst ?s1 \<le> fst m" "\<forall>k. fst ?s1 \<le> k \<and> k < fst m \<longrightarrow> dot (t ! k)"
    by simp_all
  then have "fst s + length l \<le> fst m" "\<forall>k. fst s + length l \<le> k \<and> k < fst m \<longrightarrow> t ! k \<noteq> newline"
    by (simp_all add: dot_def)
  then show ?thesis using l r by blast
qed

lemma block_comment_span:
  assumes "m \<in> set (finditer_from r t p adv)"
    and "snd m \<in> set (rmatch (delimited ''/*'' dot ''*/'') t (fst m, None))"
  shows "block_comment t (tag, m_start m, m_end m)"
proof -
  let ?s = "fst m" and ?e = "fst (snd m)"
  from delimited_match[OF assms(2)]
  obtain k where op: "take (length ''/*'') (drop ?s t) = ''/*''" and sk: "?s + 2 \<le> k"
    and run: "\<forall>j. ?s + 2 \<le> j \<and> j < k \<longrightarrow> t ! j \<noteq> newline"
    and cl: "take (length ''*/'') (drop k t) = ''*/''" and e: "?e = k + 2"
    by auto
  have sl: "?s \<le> length t" using finditer_from_match[OF assms(1)] by simp
  have el: "?e \<le> length t" using rmatch_le[OF _ assms(2)] sl by simp
  have o0: "t ! ?s = CHR ''/''" using take_drop_nth[OF op, of 0] by simp
  have o1: "t ! (?s + 1) = CHR ''*''" using take_drop_nth[OF op, of 1] by simp
  have c0: "t ! k = CHR ''*''" using take_drop_nth[OF cl, of 0] by simp
  have c1: "t ! (k + 1) = CHR ''/''" using take_drop_nth[OF cl, of 1] by simp
  have "\<forall>j. ?s \<le> j \<and> j < ?e \<longrightarrow> t ! j \<noteq> newline"
  proof (intro allI impI)
    fix j assume j: "?s \<le> j \<and> j < ?e"
    then consider "j = ?s" | "j = ?s + 1" | "?s + 2 \<le> j \<and> j < k" | "j = k" | "j = k + 1"
      using e by arith
    then show "t ! j \<noteq> newline"
      using o0 o1 c0 c1 run by cases (auto simp: newline_def)
  qed
  then have nn: "newline \<notin> set (take (?e - ?s) (drop ?s t))"
    by (rule no_char_in_slice[OF el])
  have f1: "?s + 4 \<le> ?e" using sk e by arith
  have k: "?e - 2 = k" using e by simp
  have f3: "take 2 (drop ?s t) = ''/*''" using op by (simp add: numeral_2_eq_2)
  have f4: "take 2 (drop (?e - 2) t) = ''*/''" unfolding k using cl by (simp add: numeral_2_eq_2)
  have ns: "nat (m_start m) = ?s" "nat (m_end m) = ?e" by (simp_all add: m_start_def m_end_def)
  show ?thesis
    unfolding block_comment_def Let_def fst_conv snd_conv ns
    using f1 el f3 f4 nn by (intro conjI)
qed

lemma slash_comment_spans_cases:
  assumes "sp \<in> set (whole_spans ''comment'' slash_comments content)"
  shows "(starts_with_slashes content sp \<and> at_text_end content sp) \<or> block_comment content sp"
proof -
  from assms obtain m where m: "m \<in> set (finditer slash_comments content)"
    and sp: "sp = (''comment'', m_start m, m_end m)" by (auto simp: whole_spans_def)
  have f: "m \<in> set (finditer_from slash_comments content 0 False)" using m by (simp add: finditer_def)
  have "snd m \<in> set (rmatch slash_comments content (fst m, None))"
    using finditer_from_match[OF f] by simp
  then consider
      "snd m \<in> set (rmatch (Cat (Lit ''//'') (Cat (LazyStar (Sym dot)) Eol)) content (fst m, None))"
    | "snd m \<in> set (rmatch (delimited ''/*'' dot ''*/'') content (fst m, None))"
    by (auto simp: slash_comments_def)
  then show ?thesis
  proof cases
    case 1
    have "take (length ''//'') (drop (fst m) content) = ''//''"
      using Cat_Lit_start[OF 1] by simp
    then have sw: "starts_with_slashes content sp"
      by (simp add: starts_with_slashes_def sp m_start_def numeral_2_eq_2)
    have "at_text_end content (''comment'', m_start m, m_end m)"
      by (rule line_comment_span[OF f 1]) (simp_all add: newline_def)
    then show ?thesis using sw sp by simp
  next
    case 2
    show ?thesis unfolding sp using block_comment_span[OF f 2] by simp
  qed
qed

lemma comment_in_py_spans:
  "sp \<in> set (py_spans content) \<Longrightarrow> fst sp = ''comment'' \<Longrightarrow> sp \<in> set (whole_spans ''comment'' py_comments content)"
  unfolding py_spans_def set_append Un_iff
  using fst_whole_spans[of sp _ _ content] fst_group_spans[of sp _ _ content]
  by (elim disjE) auto

lemma comment_in_js_spans:
  "sp \<in> set (js_spans content) \<Longrightarrow> fst sp = ''comment'' \<Longrightarrow> sp \<in> set (whole_spans ''comment'' slash_comments content)"
  unfolding js_spans_def set_append Un_iff
  using fst_whole_spans[of sp _ _ content]
  by (elim disjE) auto

lemma comment_in_c_spans:
  "sp \<in> set (c_spans content) \<Longrightarrow> fst sp = ''comment'' \<Longrightarrow> sp \<in> set (whole_spans ''comment'' slash_comments content)"
  unfolding c_spans_def set_append Un_iff
  using fst_whole_spans[of sp _ _ content]
  by (elim disjE) auto

lemma py_spans_two_lines: "py_spans (''a # b'' @ [newline] @ ''c # d'') = [(''comment'', 8, 11)]"
  by (simp add: py_spans_def rx_eval pattern_defs)

lemma js_spans_block_in_line_comment:
  "js_spans (''// foo /* bar */'' @ [newline] @ ''x'') = [(''comment'', 7, 16)]"
  by (simp add: js_spans_def rx_eval pattern_defs)

lemma py_spans_trailing_newline: "py_spans (''# a'' @ [newline]) = [(''comment'', 0, 3)]"
  by (simp add: py_spans_def rx_eval pattern_defs)

text \<open>
  Claim C10, as stated, fails: the text \<open># a\<close> followed by a newline has two lines, its
  comment is on the first of them, and the comment span from 0 to 3 is emitted.
\<close>

theorem line_comment_counterexample:
  "line_count (''# a'' @ [newline]) = 2 \<and> line_index (''# a'' @ [newline]) 0 = 0
   \<and> (''comment'', 0, 3) \<in> set (tags (highlight_python (''# a'' @ [newline])
                                      \<lparr>tags = [], regex_cache = Map.empty\<rparr>))"
proof -
  let ?ed = "\<lparr>tags = [], regex_cache = Map.empty\<rparr>"
  have ok: "cache_ok (regex_cache ?ed)" by (simp add: cache_ok_empty)
  have "tags (highlight_python (''# a'' @ [newline]) ?ed) = [(''comment'', 0, 3)]"
    unfolding highlight_python_ok(1)[OF ok] using py_spans_trailing_newline by simp
  moreover have "line_count (''# a'' @ [newline]) = 2" "line_index (''# a'' @ [newline]) 0 = 0"
    by (simp_all add: line_count_def line_index_def newline_def)
  ultimately show ?thesis by simp
qed

text \<open>
  Claim C10, amended. The line-comment patterns are compiled without \<open>re.MULTILINE\<close>, so
  every comment span they emit (every comment span of the Python profile, and every
  comment span of the JavaScript and C-like profiles that starts with \<open>//\<close>) ends at the
  end of the text, or one character before it when the text ends with a newline, and
  starts on the last line of the text, or on the line before the last when the last line
  is empty. In the Python profile a line comment on any other line gives no comment span
  at all. In the JavaScript and C-like profiles a line comment on any other line gives no
  comment span that starts at its \<open>//\<close>: every other comment span of these profiles is a
  block comment on one line, from \<open>/*\<close> to \<open>*/\<close> without a newline, matched by the second
  alternative of the pattern, and such a span may lie inside a line comment.
\<close>

theorem line_comment_spans_at_text_end:
  assumes "cache_ok (regex_cache ed)" and "tags ed = []"
  shows "(\<forall>sp \<in> set (tags (highlight_python content ed)).
            fst sp = ''comment'' \<longrightarrow> at_text_end content sp)
       \<and> (\<forall>sp \<in> set (tags (highlight_javascript content ed)).
            fst sp = ''comment'' \<and> starts_with_slashes content sp \<longrightarrow> at_text_end content sp)
       \<and> (\<forall>sp \<in> set (tags (highlight_c_like content ed)).
            fst sp = ''comment'' \<and> starts_with_slashes content sp \<longrightarrow> at_text_end content sp)
       \<and> (\<forall>sp \<in> set (tags (highlight_javascript content ed)).
            fst sp = ''comment'' \<longrightarrow>
              (starts_with_slashes content sp \<and> at_text_end content sp) \<or> block_comment content sp)
       \<and> (\<forall>sp \<in> set (tags (highlight_c_like content ed)).
            fst sp = ''comment'' \<longrightarrow>
              (starts_with_slashes content sp \<and> at_text_end content sp) \<or> block_comment content sp)"
  unfolding highlight_python_ok(1)[OF assms(1)] highlight_javascript_ok(1)[OF assms(1)]
    highlight_c_like_ok(1)[OF assms(1)] assms(2) append_Nil
proof (intro conjI ballI impI)
  fix sp assume "sp \<in> set (py_spans content)" "fst sp = ''comment''"
  then show "at_text_end content sp"
    using py_comment_spans_at_end comment_in_py_spans by blast
next
  fix sp assume "sp \<in> set (js_spans content)" "fst sp = ''comment'' \<and> starts_with_slashes content sp"
  then show "at_text_end content sp"
    using slash_comment_spans_at_end comment_in_js_spans by blast
next
  fix sp assume "sp \<in> set (c_spans content)" "fst sp = ''comment'' \<and> starts_with_slashes content sp"
  then show "at_text_end content sp"
    using slash_comment_spans_at_end comment_in_c_spans by blast
next
  fix sp assume "sp \<in> set (js_spans content)" "fst sp = ''comment''"
  then show "(starts_with_slashes content sp \<and> at_text_end content sp) \<or> block_comment content sp"
    using slash_comment_spans_cases comment_in_js_spans by blast
next
  fix sp assume "sp \<in> set (c_spans content)" "fst sp = ''comment''"
  then show "(starts_with_slashes content sp \<and> at_text_end content sp) \<or> block_comment content sp"
    using slash_comment_spans_cases comment_in_c_spans by blast
qed

theorem line_comment_spans_at_text_end_witness:
  "cache_ok (regex_cache \<lparr>tags = [], regex_cache = Map.empty\<rparr>)
   \<and> tags \<lparr>tags = [], regex_cache = Map.empty\<rparr> = []
   \<and> tags (highlight_python (''a # b'' @ [newline] @ ''c # d'') \<lparr>tags = [], regex_cache = Map.empty\<rparr>)
       = [(''comment'', 8, 11)]
   \<and> at_text_end (''a # b'' @ [newline] @ ''c # d'') (''comment'', 8, 11)
   \<and> tags (highlight_javascript (''// foo /* bar */'' @ [newline] @ ''x'')
            \<lparr>tags = [], regex_cache = Map.empty\<rparr>) = [(''comment'', 7, 16)]
   \<and> line_count (''// foo /* bar */'' @ [newline] @ ''x'') = 2
   \<and> line_index (''// foo /* bar */'' @ [newline] @ ''x'') 7 = 0
   \<and> \<not> starts_with_slashes (''// foo /* bar */'' @ [newline] @ ''x'') (''comment'', 7, 16)
   \<and> block_comment (''// foo /* bar */'' @ [newline] @ ''x'') (''comment'', 7, 16)"
proof -
  let ?ed = "\<lparr>tags = [], regex_cache = Map.empty\<rparr>"
  let ?c = "''a # b'' @ [newline] @ ''c # d''"
  let ?j = "''// foo /* bar */'' @ [newline] @ ''x''"
  have ok: "cache_ok (regex_cache ?ed)" by (simp add: cache_ok_empty)
  have e: "tags ?ed = []" by simp
  have t: "tags (highlight_python ?c ?ed) = [(''comment'', 8, 11)]"
    unfolding highlight_python_ok(1)[OF ok] using py_spans_two_lines by simp
  have u: "tags (highlight_javascript ?j ?ed) = [(''comment'', 7, 16)]"
    unfolding highlight_javascript_ok(1)[OF ok] using js_spans_block_in_line_comment by simp
  have a: "at_text_end ?c (''comment'', 8, 11)"
    using line_comment_spans_at_text_end[OF ok e, of ?c] unfolding t by simp
  have n: "\<not> starts_with_slashes ?j (''comment'', 7, 16)"
    by (simp add: starts_with_slashes_def)
  have l: "line_count ?j = 2" "line_index ?j 7 = 0"
    by (simp_all add: line_count_def line_index_def newline_def)
  have "(starts_with_slashes ?j (''comment'', 7, 16) \<and> at_text_end ?j (''comment'', 7, 16))
        \<or> block_comment ?j (''comment'', 7, 16)"
    using line_comment_spans_at_text_end[OF ok e, of ?j] unfolding u by simp
  then have b: "block_comment ?j (''comment'', 7, 16)" using n by blast
  show ?thesis using ok t u a n l b by simp
qed

section \<open>Properties of the minimap renderer\<close>

lemma base_color_first_rule: "base_color s = first_rule minimap_rules s"
  by (simp add: base_color_def first_rule_def minimap_rules_def Comment_def Definition_def
      Import_def ControlFlow_def Plain_def)

text \<open>
  Claim C7, as stated, fails: the line \<open>return;\<close> starts with the control-flow keyword
  \<open>return\<close>, starts with no comment mark or definition keyword and holds no import
  keyword, and is classified plain, not control flow. So is the line \<open>if(x) {\<close>.
\<close>

theorem minimap_keyword_prefix_counterexample:
  "strip ''return;'' \<noteq> [] \<and> startswith (lstrip ''return;'') ''return''
   \<and> \<not> list_ex (startswith (lstrip ''return;''))
         [''#'', ''//'', ''def'', ''class'', ''function'', ''public'', ''private'', ''async'',
          ''const'', ''let'', ''var'']
   \<and> \<not> list_ex (contains (lstrip ''return;'')) [''import'', ''from'', ''include'', ''using'']
   \<and> base_color (lstrip ''return;'') = Plain
   \<and> base_color (lstrip ''return;'') \<noteq> ControlFlow
   \<and> startswith (lstrip ''if(x) {'') ''if'' \<and> base_color (lstrip ''if(x) {'') = Plain"
  by (simp add: base_color_def startswith_def strip_def rstrip_def lstrip_def is_space_def
      between_def code_point_def Plain_def ControlFlow_def)

text \<open>
  Claim C7, amended. The minimap gives a non-blank line the category of the first rule
  its left-stripped text matches, in this order: (1) it starts with \<open>#\<close> or \<open>//\<close>:
  comment; (2) it starts with one of \<open>def\<close>, \<open>class\<close>, \<open>function\<close>, \<open>public\<close>,
  \<open>private\<close>, \<open>async\<close>, \<open>const\<close>, \<open>let\<close>, \<open>var\<close> followed by a space: definition;
  (3) it contains one of \<open>import\<close>, \<open>from\<close>, \<open>include\<close>, \<open>using\<close> followed by a space:
  import; (4) it starts with one of \<open>if\<close>, \<open>for\<close>, \<open>while\<close>, \<open>switch\<close>, \<open>case\<close>,
  \<open>return\<close> followed by a space, or with \<open>else\<close>: control flow; (5) otherwise plain.
  The rectangle drawn for the line, when one is drawn, is filled with the colour of
  that category.
\<close>

theorem minimap_classification:
  "base_color (lstrip line) = first_rule minimap_rules (lstrip line)
   \<and> (draw_line v lines i = []
      \<or> (\<exists>r. draw_line v lines i = [r]
             \<and> fill r = color_string (first_rule minimap_rules (lstrip (lines ! i)))))"
  by (simp add: base_color_first_rule[symmetric] draw_line_def Let_def)

lemma draw_blank_line: "strip (lines ! i) = [] \<Longrightarrow> draw_line v lines i = []"
  by (simp add: draw_line_def)

lemma draw_blank_lines:
  assumes "\<forall>line \<in> set lines. strip line = []" and "n \<le> length lines"
  shows "concat (map (draw_line v lines) [m..<n]) = []"
proof -
  have "\<forall>i \<in> set [m..<n]. draw_line v lines i = []"
    using assms by (auto intro!: draw_blank_line)
  then show ?thesis by (simp add: concat_eq_Nil_conv)
qed

text \<open>
  Claim C8, as stated, fails: on a canvas one pixel wide and high (its size before the
  window is laid out) a call on a text of blank lines returns early and draws nothing,
  the viewport indicator included.
\<close>

theorem minimap_blank_counterexample:
  "list_all (\<lambda>line. strip line = []) (split_on newline [CHR '' '', newline])
   \<and> update_minimap \<lparr>minimap_visible = True, canvas_height = 1, canvas_width = 1,
       first_visible_line = 1, last_visible_line = 1,
       scaled_indent = (\<lambda>n w. 0), scaled_width = (\<lambda>n w. 0)\<rparr> [CHR '' '', newline] [] = []"
  by (simp add: update_minimap_def newline_def strip_def lstrip_def rstrip_def is_space_def
      between_def code_point_def)

text \<open>
  Claim C8, amended. When the minimap is shown and its canvas is more than one pixel wide
  and high, a call on a text whose lines are all blank leaves exactly one item on the
  canvas: the viewport indicator, an outline without fill. No filled rectangle is
  drawn.
\<close>

theorem minimap_blank_text:
  assumes "minimap_visible v" and "1 < canvas_height v" and "1 < canvas_width v"
    and "\<forall>line \<in> set (split_on newline content). strip line = []"
  shows "update_minimap v content items = [viewport_indicator v]
       \<and> filter (\<lambda>r. fill r \<noteq> []) (update_minimap v content items) = []
       \<and> fill (viewport_indicator v) = [] \<and> outline (viewport_indicator v) = ''#569cd6''"
proof -
  let ?lines = "split_on newline content"
  let ?n = "nat (min (int (length ?lines)) (first_visible_line v + 200))"
  have n: "?n \<le> length ?lines" by simp
  have d: "concat (map (draw_line v ?lines) [nat (max 0 (first_visible_line v - 50))..<?n]) = []"
    by (rule draw_blank_lines[OF assms(4) n])
  have u: "update_minimap v content items = [viewport_indicator v]"
    using assms(1,2,3) d by (simp add: update_minimap_def Let_def split_on_nonempty)
  have f: "fill (viewport_indicator v) = []" "outline (viewport_indicator v) = ''#569cd6''"
    by (simp_all add: viewport_indicator_def Let_def)
  show ?thesis using u f by simp
qed

theorem minimap_blank_text_witness:
  "minimap_visible \<lparr>minimap_visible = True, canvas_height = 400, canvas_width = 120,
       first_visible_line = 1, last_visible_line = 3,
       scaled_indent = (\<lambda>n w. 0), scaled_width = (\<lambda>n w. w)\<rparr>
   \<and> list_all (\<lambda>line. strip line = []) (split_on newline [CHR '' '', newline, newline, CHR '' ''])
   \<and> update_minimap \<lparr>minimap_visible = True, canvas_height = 400, canvas_width = 120,
       first_visible_line = 1, last_visible_line = 3,
       scaled_indent = (\<lambda>n w. 0), scaled_width = (\<lambda>n w. w)\<rparr>
       [CHR '' '', newline, newline, CHR '' ''] []
     = [\<lparr>x0 = 0, y0 = 0, x1 = 120, y1 = 9, fill = [], outline = ''#569cd6'', width = 2,
         item_tag = ''viewport''\<rparr>]"
proof -
  let ?v = "\<lparr>minimap_visible = True, canvas_height = 400, canvas_width = 120,
       first_visible_line = 1, last_visible_line = 3,
       scaled_indent = (\<lambda>n w. 0), scaled_width = (\<lambda>n w. w)\<rparr>"
  let ?c = "[CHR '' '', newline, newline, CHR '' '']"
  have b: "list_all (\<lambda>line. strip line = []) (split_on newline ?c)"
    by (simp add: newline_def strip_def lstrip_def rstrip_def is_space_def between_def code_point_def)
  then have b': "\<forall>line \<in> set (split_on newline ?c). strip line = []"
    by (simp add: list_all_iff)
  have i: "viewport_indicator ?v = \<lparr>x0 = 0, y0 = 0, x1 = 120, y1 = 9, fill = [],
              outline = ''#569cd6'', width = 2, item_tag = ''viewport''\<rparr>"
    by (simp add: viewport_indicator_def pixels_per_line_def line_height_def line_gap_def)
  show ?thesis
    using minimap_blank_text[of ?v ?c "[]", OF _ _ _ b'] b i by simp
qed

end
